theory Spec2Isabelle
  imports Complex_Main "HOL-Library.Multiset" "HOL-Library.Product_Lexorder"
begin

section \<open>Workload records\<close>

text \<open>
  A workload item is the JSON object read by every simulator: \<^verbatim>\<open>id\<close>,
  \<^verbatim>\<open>arrival_time\<close>, \<^verbatim>\<open>deadline\<close>, \<^verbatim>\<open>function_name\<close>, an optional
  \<^verbatim>\<open>payload\<close> dictionary and an optional \<^verbatim>\<open>metadata\<close> dictionary. A key that
  may be absent is an \<open>option\<close>. Times are Python numbers; they are modelled as exact
  rationals, so rounding of floating-point arithmetic is outside this development.
\<close>

record payload =
  p_name :: "string option"
  p_est_runtime :: "rat option"
  p_trigger_type :: "string option"

record metadata =
  m_trigger :: "string option"
  m_memory_mb :: "int option"

record task_def =
  td_id :: string
  td_arrival_time :: rat
  td_deadline :: rat
  td_payload :: "payload option"
  td_function_name :: string
  td_metadata :: "metadata option"

text \<open>\<^verbatim>\<open>task_def.get('payload', {})\<close> and \<^verbatim>\<open>task_data.get('metadata', {})\<close>.\<close>

definition empty_payload :: payload where
  "empty_payload = \<lparr>p_name = None, p_est_runtime = None, p_trigger_type = None\<rparr>"

definition empty_metadata :: metadata where
  "empty_metadata = \<lparr>m_trigger = None, m_memory_mb = None\<rparr>"

definition get_payload :: "task_def \<Rightarrow> payload" where
  "get_payload td = (case td_payload td of None \<Rightarrow> empty_payload | Some p \<Rightarrow> p)"

definition get_metadata :: "task_def \<Rightarrow> metadata" where
  "get_metadata td = (case td_metadata td of None \<Rightarrow> empty_metadata | Some m \<Rightarrow> m)"

text \<open>\<^verbatim>\<open>payload.get('est_runtime', 1)\<close>\<close>

definition est_runtime_or_1 :: "payload \<Rightarrow> rat" where
  "est_runtime_or_1 p = (case p_est_runtime p of None \<Rightarrow> 1 | Some r \<Rightarrow> r)"

section \<open>The sequential simulator of custom\_simulator.py\<close>

record cs_task =
  cs_id :: string
  cs_arrival_time :: rat
  cs_deadline :: rat
  cs_payload :: payload
  cs_function_name :: string
  cs_enqueue_time :: "rat option"
  cs_start_time :: "rat option"
  cs_end_time :: "rat option"
  cs_execution_time :: "rat option"
  cs_queue_time :: "rat option"
  cs_deadline_status :: "string option"

text \<open>\<^verbatim>\<open>Task.__init__\<close> of custom\_simulator.py, applied to one workload item.\<close>

definition cs_Task :: "task_def \<Rightarrow> cs_task" where
  "cs_Task td =
     \<lparr>cs_id = td_id td, cs_arrival_time = td_arrival_time td, cs_deadline = td_deadline td,
      cs_payload = get_payload td, cs_function_name = td_function_name td,
      cs_enqueue_time = None, cs_start_time = None, cs_end_time = None,
      cs_execution_time = None, cs_queue_time = None, cs_deadline_status = None\<rparr>"

record cs_metrics =
  cs_total_tasks :: nat
  cs_on_time_tasks :: nat
  cs_missed_tasks :: nat
  cs_total_execution_time :: rat
  cs_total_queue_time :: rat

definition cs_metrics0 :: cs_metrics where
  "cs_metrics0 = \<lparr>cs_total_tasks = 0, cs_on_time_tasks = 0, cs_missed_tasks = 0,
     cs_total_execution_time = 0, cs_total_queue_time = 0\<rparr>"

text \<open>
  The body of the loop \<^verbatim>\<open>for task in tasks_by_arrival\<close>: the state threaded through
  the loop is \<^verbatim>\<open>current_time\<close>, \<^verbatim>\<open>self.results\<close> and \<^verbatim>\<open>self.metrics\<close>.
\<close>

definition cs_step :: "rat \<times> cs_task list \<times> cs_metrics \<Rightarrow> cs_task \<Rightarrow> rat \<times> cs_task list \<times> cs_metrics" where
  "cs_step st task =
     (case st of (current_time, results, metrics) \<Rightarrow>
      let arrival_time = cs_arrival_time task;
          enqueue_time = arrival_time;
          start_time = max current_time arrival_time;
          execution_time = est_runtime_or_1 (cs_payload task);
          end_time = start_time + execution_time;
          queue_time = start_time - enqueue_time;
          deadline_missed = (end_time > cs_deadline task);
          deadline_status = (if deadline_missed then ''missed'' else ''on-time'');
          task' = task\<lparr>cs_enqueue_time := Some enqueue_time, cs_start_time := Some start_time,
                    cs_end_time := Some end_time, cs_execution_time := Some execution_time,
                    cs_queue_time := Some queue_time, cs_deadline_status := Some deadline_status\<rparr>;
          metrics1 = metrics\<lparr>cs_total_tasks := cs_total_tasks metrics + 1,
                    cs_total_execution_time := cs_total_execution_time metrics + execution_time,
                    cs_total_queue_time := cs_total_queue_time metrics + queue_time\<rparr>;
          metrics2 = (if deadline_missed
                      then metrics1\<lparr>cs_missed_tasks := cs_missed_tasks metrics1 + 1\<rparr>
                      else metrics1\<lparr>cs_on_time_tasks := cs_on_time_tasks metrics1 + 1\<rparr>)
      in (end_time, results @ [task'], metrics2))"

text \<open>
  \<^verbatim>\<open>ServerlessSimulator.simulate\<close>: the tasks are built in workload order, sorted by
  \<^verbatim>\<open>arrival_time\<close> with Python's stable \<^verbatim>\<open>list.sort\<close>, and run through the loop from
  \<^verbatim>\<open>current_time = 0\<close>. The \<^verbatim>\<open>DeadlineAwareScheduler\<close> object that the method creates
  is never given a task and never asked for one, so it has no part in the result.
\<close>

definition cs_run :: "task_def list \<Rightarrow> rat \<times> cs_task list \<times> cs_metrics" where
  "cs_run workload =
     (let tasks_by_arrival = sort_key cs_arrival_time (map cs_Task workload)
      in foldl cs_step (0, [], cs_metrics0) tasks_by_arrival)"

definition cs_simulate :: "task_def list \<Rightarrow> cs_task list" where
  "cs_simulate workload = fst (snd (cs_run workload))"

section \<open>The sequential simulator of run\_sim\_final.py\<close>

record rf_task =
  rf_id :: string
  rf_arrival_time :: rat
  rf_deadline :: rat
  rf_payload :: payload
  rf_function_name :: string
  rf_trigger_type :: string
  rf_enqueue_time :: "rat option"
  rf_start_time :: "rat option"
  rf_end_time :: "rat option"
  rf_execution_time :: "rat option"
  rf_queue_time :: "rat option"
  rf_deadline_status :: "string option"
  rf_deadline_missed :: bool

definition rf_Task :: "task_def \<Rightarrow> rf_task" where
  "rf_Task td =
     \<lparr>rf_id = td_id td, rf_arrival_time = td_arrival_time td, rf_deadline = td_deadline td,
      rf_payload = get_payload td, rf_function_name = td_function_name td,
      rf_trigger_type = (case p_trigger_type (get_payload td) of None \<Rightarrow> ''Unknown'' | Some t \<Rightarrow> t),
      rf_enqueue_time = None, rf_start_time = None, rf_end_time = None,
      rf_execution_time = None, rf_queue_time = None, rf_deadline_status = None,
      rf_deadline_missed = False\<rparr>"

text \<open>One entry of \<^verbatim>\<open>PerformanceAnalyzer.tasks\<close>, and the analyzer with its three metric lists.\<close>

record rf_task_result =
  tr_id :: string
  tr_execution_time :: rat
  tr_queue_time :: rat
  tr_deadline_missed :: bool
  tr_trigger_type :: string
  tr_deadline_status :: string

record rf_analyzer =
  an_tasks :: "rf_task_result list"
  an_execution_times :: "rat list"
  an_queue_times :: "rat list"
  an_deadline_misses :: "bool list"

definition rf_analyzer0 :: rf_analyzer where
  "rf_analyzer0 = \<lparr>an_tasks = [], an_execution_times = [], an_queue_times = [], an_deadline_misses = []\<rparr>"

definition add_task_result :: "rf_analyzer \<Rightarrow> rf_task_result \<Rightarrow> rf_analyzer" where
  "add_task_result an r =
     \<lparr>an_tasks = an_tasks an @ [r],
      an_execution_times = an_execution_times an @ [tr_execution_time r],
      an_queue_times = an_queue_times an @ [tr_queue_time r],
      an_deadline_misses = an_deadline_misses an @ [tr_deadline_missed r]\<rparr>"

definition rf_step :: "rat \<times> rf_task list \<times> rf_analyzer \<Rightarrow> rf_task \<Rightarrow> rat \<times> rf_task list \<times> rf_analyzer" where
  "rf_step st task =
     (case st of (current_time, results, analyzer) \<Rightarrow>
      let arrival_time = rf_arrival_time task;
          enqueue_time = arrival_time;
          start_time = max current_time arrival_time;
          execution_time = est_runtime_or_1 (rf_payload task);
          end_time = start_time + execution_time;
          queue_time = start_time - enqueue_time;
          deadline_missed = (end_time > rf_deadline task);
          deadline_status = (if deadline_missed then ''missed'' else ''on-time'');
          task' = task\<lparr>rf_enqueue_time := Some enqueue_time, rf_start_time := Some start_time,
                    rf_end_time := Some end_time, rf_execution_time := Some execution_time,
                    rf_queue_time := Some queue_time, rf_deadline_status := Some deadline_status,
                    rf_deadline_missed := deadline_missed\<rparr>;
          analyzer' = add_task_result analyzer
                    \<lparr>tr_id = rf_id task, tr_execution_time = execution_time,
                     tr_queue_time = queue_time, tr_deadline_missed = deadline_missed,
                     tr_trigger_type = rf_trigger_type task, tr_deadline_status = deadline_status\<rparr>
      in (end_time, results @ [task'], analyzer'))"

definition rf_run :: "task_def list \<Rightarrow> rat \<times> rf_task list \<times> rf_analyzer" where
  "rf_run workload =
     (let tasks_by_arrival = sort_key rf_arrival_time (map rf_Task workload)
      in foldl rf_step (0, [], rf_analyzer0) tasks_by_arrival)"

definition rf_simulate :: "task_def list \<Rightarrow> rf_task list" where
  "rf_simulate workload = fst (snd (rf_run workload))"

section \<open>The batch engine of optimized\_simulator.py\<close>

datatype py_error = ValueError | TypeError | EOFError

record otask =
  o_id :: string
  o_arrival_time :: rat
  o_deadline :: rat
  o_payload :: payload
  o_function_name :: string
  o_metadata :: metadata
  o_trigger_type :: string
  o_enqueue_time :: "rat option"
  o_start_time :: "rat option"
  o_end_time :: "rat option"
  o_execution_time :: "rat option"
  o_queue_time :: "rat option"
  o_deadline_missed :: bool
  o_deadline_status :: "string option"

text \<open>\<^verbatim>\<open>OptimizedTask.__init__\<close>\<close>

definition OptimizedTask :: "task_def \<Rightarrow> otask" where
  "OptimizedTask task_data =
     \<lparr>o_id = td_id task_data, o_arrival_time = td_arrival_time task_data,
      o_deadline = td_deadline task_data, o_payload = get_payload task_data,
      o_function_name = td_function_name task_data, o_metadata = get_metadata task_data,
      o_trigger_type = (case m_trigger (get_metadata task_data) of None \<Rightarrow> ''Unknown'' | Some t \<Rightarrow> t),
      o_enqueue_time = None, o_start_time = None, o_end_time = None,
      o_execution_time = None, o_queue_time = None, o_deadline_missed = False,
      o_deadline_status = None\<rparr>"

text \<open>
  One row of the CSV file. \<^verbatim>\<open>Timestamp\<close> is \<^verbatim>\<open>datetime.now().isoformat()\<close>: the
  wall clock is an input of \<open>write_result\<close>.
\<close>

record csv_row =
  Timestamp :: string
  TaskName :: string
  TaskID :: string
  TriggerType :: string
  EnqueueTime :: "rat option"
  StartTime :: "rat option"
  EndTime :: "rat option"
  WaitTime :: "rat option"
  ExecDuration :: "rat option"
  Deadline :: rat
  DeadlineStatus :: "string option"

definition write_result :: "string \<Rightarrow> csv_row list \<Rightarrow> otask \<Rightarrow> csv_row list" where
  "write_result now rows task = rows @
     [\<lparr>Timestamp = now,
       TaskName = (case p_name (o_payload task) of None \<Rightarrow> o_id task | Some n \<Rightarrow> n),
       TaskID = o_id task, TriggerType = o_trigger_type task,
       EnqueueTime = o_enqueue_time task, StartTime = o_start_time task,
       EndTime = o_end_time task, WaitTime = o_queue_time task,
       ExecDuration = o_execution_time task, Deadline = o_deadline task,
       DeadlineStatus = o_deadline_status task\<rparr>]"

text \<open>
  The simulator object: the parameters fixed by \<^verbatim>\<open>__init__\<close> and the mutable members
  (\<^verbatim>\<open>stats\<close>, \<^verbatim>\<open>trigger_stats\<close>, \<^verbatim>\<open>container_cache\<close>, \<^verbatim>\<open>cost_total\<close>).
  \<open>cold_start_ms\<close> holds, as in the code, the value already divided by 1000.
  The two \<^verbatim>\<open>defaultdict\<close>s are read with their default where a key is absent.
\<close>

record simulator =
  workload :: "task_def list"
  max_tasks :: "int option"
  concurrency :: int
  cold_start_ms :: rat
  container_reuse :: bool
  reuse_ttl :: rat
  enable_cost_model :: bool
  stats_total_tasks :: nat
  stats_missed_tasks :: nat
  stats_on_time_tasks :: nat
  trigger_stats :: "string \<rightharpoonup> nat \<times> nat"
  container_cache :: "string \<rightharpoonup> rat"
  cost_total :: rat

datatype message = Limiting int nat

text \<open>Python's \<^verbatim>\<open>xs[:k]\<close> for an integer \<open>k\<close> of either sign.\<close>

definition slice_to :: "int \<Rightarrow> 'a list \<Rightarrow> 'a list" where
  "slice_to k xs = (if 0 \<le> k then take (nat k) xs else take (length xs - nat (- k)) xs)"

text \<open>
  \<^verbatim>\<open>OptimizedServerlessSimulator.__init__\<close>, with the line it prints when it cuts the
  workload. \<^verbatim>\<open>if self.max_tasks and ...\<close> is false for \<^verbatim>\<open>None\<close> and for \<open>0\<close>.
\<close>

definition init_simulator ::
  "task_def list \<Rightarrow> int option \<Rightarrow> int \<Rightarrow> rat \<Rightarrow> bool \<Rightarrow> rat \<Rightarrow> bool \<Rightarrow> simulator \<times> message list" where
  "init_simulator wl max_tasks_arg concurrency_arg cold_start_ms_arg container_reuse_arg
       reuse_ttl_arg enable_cost_model_arg =
     (let limited = (case max_tasks_arg of None \<Rightarrow> False
                     | Some k \<Rightarrow> k \<noteq> 0 \<and> int (length wl) > k);
          wl' = (case max_tasks_arg of None \<Rightarrow> wl
                 | Some k \<Rightarrow> if limited then slice_to k wl else wl);
          printed = (case max_tasks_arg of None \<Rightarrow> []
                 | Some k \<Rightarrow> if limited then [Limiting k (length wl)] else [])
      in (\<lparr>workload = wl', max_tasks = max_tasks_arg, concurrency = concurrency_arg,
           cold_start_ms = cold_start_ms_arg / 1000, container_reuse = container_reuse_arg,
           reuse_ttl = reuse_ttl_arg, enable_cost_model = enable_cost_model_arg,
           stats_total_tasks = 0, stats_missed_tasks = 0, stats_on_time_tasks = 0,
           trigger_stats = Map.empty, container_cache = Map.empty, cost_total = 0\<rparr>,
          printed))"

text \<open>
  The part of the environment that \<^verbatim>\<open>validate_workload\<close> reads: whether standard
  input is a terminal, and what \<^verbatim>\<open>input()\<close> returns (\<open>None\<close>: end of file).
  The lines it prints and the memory figures of \<^verbatim>\<open>psutil\<close> have no effect on the
  result and are left out.
\<close>

record environment =
  stdin_isatty :: bool
  user_response :: "string option"

definition validate_workload :: "environment \<Rightarrow> simulator \<Rightarrow> py_error + bool" where
  "validate_workload env self =
     (let total_tasks = length (workload self) in
      if total_tasks = 0 then Inr False
      else if total_tasks > 100000 then
        (if stdin_isatty env then
           (case user_response env of None \<Rightarrow> Inl EOFError
            | Some response \<Rightarrow> if response \<noteq> ''y'' \<and> response \<noteq> ''Y'' then Inr False else Inr True)
         else Inr True)
      else Inr True)"

text \<open>
  \<^verbatim>\<open>_get_container_delay\<close>. The test \<^verbatim>\<open>if not container_info\<close> is Python truthiness:
  it holds when the key is absent and also when the stored time is \<open>0\<close>.
\<close>

definition get_container_delay :: "simulator \<Rightarrow> string \<Rightarrow> rat \<Rightarrow> rat \<times> simulator" where
  "get_container_delay self function_name current_time =
     (if \<not> container_reuse self then (cold_start_ms self, self)
      else
        let container_info = container_cache self function_name;
            self' = self\<lparr>container_cache := (container_cache self)(function_name \<mapsto> current_time)\<rparr>
        in (case container_info of
              None \<Rightarrow> (cold_start_ms self, self')
            | Some last_used \<Rightarrow>
                if last_used = 0 then (cold_start_ms self, self')
                else if current_time - last_used > reuse_ttl self then (cold_start_ms self, self')
                else (0, self')))"

text \<open>
  \<^verbatim>\<open>_compute_cost\<close>. It reads \<^verbatim>\<open>task.execution_time\<close> and nothing else of the task;
  the memory size is the constant 256. Multiplying \<^verbatim>\<open>None\<close> raises \<^verbatim>\<open>TypeError\<close>.
\<close>

definition compute_cost :: "simulator \<Rightarrow> otask \<Rightarrow> py_error + rat" where
  "compute_cost self task =
     (if \<not> enable_cost_model self then Inr 0
      else
        let memory_mb = (256 :: rat) in
        (case o_execution_time task of
           None \<Rightarrow> Inl TypeError
         | Some execution_time \<Rightarrow>
             let gb_seconds = (memory_mb / 1024) * execution_time;
                 cost = gb_seconds * (1667 / 100000000)
             in Inr (cost + 2 / 10000000)))"

text \<open>
  The closure \<^verbatim>\<open>execute_task\<close> of \<^verbatim>\<open>simulate_batch\<close>. It reads the variable
  \<^verbatim>\<open>current_time\<close> of the enclosing call once and never assigns it; the value read is
  the argument \<open>current_time\<close>. The result is what the future holds: an exception
  or the triple \<^verbatim>\<open>(task, end_time, cost)\<close>.
\<close>

definition execute_task :: "simulator \<Rightarrow> rat \<Rightarrow> otask \<Rightarrow> (py_error + otask \<times> rat \<times> rat) \<times> simulator" where
  "execute_task self current_time task =
     (let arrival_time = o_arrival_time task;
          enqueue_time = arrival_time;
          start_time0 = max current_time arrival_time;
          (cold_delay, self') = get_container_delay self (o_function_name task) start_time0;
          start_time = start_time0 + cold_delay;
          execution_time = est_runtime_or_1 (o_payload task);
          end_time = start_time + execution_time;
          queue_time = start_time - enqueue_time;
          deadline_missed = (end_time > o_deadline task);
          deadline_status = (if deadline_missed then ''missed'' else ''on-time'');
          task' = task\<lparr>o_enqueue_time := Some enqueue_time, o_start_time := Some start_time,
                    o_end_time := Some end_time, o_execution_time := Some execution_time,
                    o_queue_time := Some queue_time, o_deadline_missed := deadline_missed,
                    o_deadline_status := Some deadline_status\<rparr>
      in (case compute_cost self' task' of
            Inl e \<Rightarrow> (Inl e, self')
          | Inr cost \<Rightarrow> (Inr (task', end_time, cost), self')))"

subsection \<open>One batch on the thread pool\<close>

text \<open>
  \<^verbatim>\<open>simulate_batch\<close> submits every task of the sorted batch to a
  \<^verbatim>\<open>ThreadPoolExecutor\<close> and then consumes the futures with \<^verbatim>\<open>as_completed\<close>.
  The worker runs the submitted calls of \<^verbatim>\<open>execute_task\<close> in submission order;
  the submitting thread assigns \<^verbatim>\<open>current_time\<close> only in the body of the
  \<^verbatim>\<open>as_completed\<close> loop. How the two threads interleave is not fixed by the program,
  so it is an argument of the model: a list of events.
  \<^item> \<open>Run\<close>: the next submitted call of \<^verbatim>\<open>execute_task\<close> runs, reading the value
    that \<^verbatim>\<open>current_time\<close> has at that moment, and its future becomes done;
  \<^item> \<open>Yield i now\<close>: \<^verbatim>\<open>as_completed\<close> yields the \<open>i\<close>-th of the futures that are
    done and not yet yielded, and the loop body runs for it, the wall clock reading
    \<open>now\<close>.
  With \<^verbatim>\<open>max_workers = 1\<close> (the default \<^verbatim>\<open>concurrency\<close>) these are exactly the
  interleavings of the two threads; with more workers the model covers the
  interleavings in which each call of \<^verbatim>\<open>execute_task\<close> runs without being preempted
  by another one.
\<close>

datatype event = Run | Yield nat string

record batch_state =
  bs_self :: simulator
  bs_current_time :: rat
  bs_queue :: "otask list"
  bs_done :: "(py_error + otask \<times> rat \<times> rat) list"
  bs_csv :: "csv_row list"

text \<open>The body of \<^verbatim>\<open>for future in as_completed(futures)\<close> for a future that holds a result.\<close>

definition collect :: "string \<Rightarrow> batch_state \<Rightarrow> otask \<times> rat \<times> rat \<Rightarrow> batch_state" where
  "collect now s r =
     (case r of (task, end_time, cost) \<Rightarrow>
      let self = bs_self s;
          self1 = self\<lparr>stats_total_tasks := stats_total_tasks self + 1\<rparr>;
          self2 = (if o_deadline_missed task
                   then self1\<lparr>stats_missed_tasks := stats_missed_tasks self1 + 1\<rparr>
                   else self1\<lparr>stats_on_time_tasks := stats_on_time_tasks self1 + 1\<rparr>);
          trig = o_trigger_type task;
          entry = (case trigger_stats self2 trig of None \<Rightarrow> (0, 0) | Some cm \<Rightarrow> cm);
          entry' = (fst entry + 1, if o_deadline_missed task then snd entry + 1 else snd entry);
          self3 = self2\<lparr>trigger_stats := (trigger_stats self2)(trig \<mapsto> entry')\<rparr>;
          self4 = self3\<lparr>cost_total := cost_total self3 + cost\<rparr>
      in s\<lparr>bs_self := self4, bs_csv := write_result now (bs_csv s) task,
           bs_current_time := max (bs_current_time s) end_time\<rparr>)"

text \<open>
  Running a list of events. \<open>None\<close>: the list is not an execution of the batch (an
  event that is not enabled, or work left over at the end). \<open>Some (Inl e)\<close>:
  \<^verbatim>\<open>future.result()\<close> raised \<open>e\<close>, which leaves \<^verbatim>\<open>simulate_batch\<close>.
\<close>

fun run_events :: "event list \<Rightarrow> batch_state \<Rightarrow> (py_error + batch_state) option" where
  "run_events [] s = (if bs_queue s = [] \<and> bs_done s = [] then Some (Inr s) else None)"
| "run_events (Run # evs) s =
     (case bs_queue s of
        [] \<Rightarrow> None
      | task # queue \<Rightarrow>
          (case execute_task (bs_self s) (bs_current_time s) task of (r, self') \<Rightarrow>
             run_events evs (s\<lparr>bs_self := self', bs_queue := queue, bs_done := bs_done s @ [r]\<rparr>)))"
| "run_events (Yield i now # evs) s =
     (if i < length (bs_done s) then
        (case bs_done s ! i of
           Inl e \<Rightarrow> Some (Inl e)
         | Inr r \<Rightarrow> run_events evs
             (collect now (s\<lparr>bs_done := take i (bs_done s) @ drop (Suc i) (bs_done s)\<rparr>) r))
      else None)"

text \<open>
  \<^verbatim>\<open>simulate_batch\<close>: the stable sort by \<^verbatim>\<open>arrival_time\<close>, the pool (whose
  constructor raises \<^verbatim>\<open>ValueError\<close> for \<^verbatim>\<open>max_workers <= 0\<close>), and the returned
  \<^verbatim>\<open>current_time\<close>.
\<close>

definition simulate_batch ::
  "event list \<Rightarrow> simulator \<Rightarrow> otask list \<Rightarrow> rat \<Rightarrow> csv_row list
     \<Rightarrow> (py_error + rat \<times> simulator \<times> csv_row list) option" where
  "simulate_batch evs self tasks current_time csv_writer =
     (let tasks' = sort_key o_arrival_time tasks in
      if concurrency self \<le> 0 then Some (Inl ValueError)
      else
        (case run_events evs \<lparr>bs_self = self, bs_current_time = current_time,
                 bs_queue = tasks', bs_done = [], bs_csv = csv_writer\<rparr> of
           None \<Rightarrow> None
         | Some (Inl e) \<Rightarrow> Some (Inl e)
         | Some (Inr s) \<Rightarrow> Some (Inr (bs_current_time s, bs_self s, bs_csv s))))"

subsection \<open>The whole run\<close>

text \<open>\<^verbatim>\<open>range(0, total, step)\<close> for \<open>step \<noteq> 0\<close>.\<close>

definition range0 :: "nat \<Rightarrow> int \<Rightarrow> nat list" where
  "range0 stop step =
     (if step > 0 then map (\<lambda>j. j * nat step) [0 ..< (stop + nat step - 1) div nat step] else [])"

text \<open>
  The loop \<^verbatim>\<open>for i in range(0, total_tasks, batch_size)\<close> of \<^verbatim>\<open>simulate\<close>, one list
  of events for each batch.
\<close>

fun batch_loop ::
  "int \<Rightarrow> nat list \<Rightarrow> event list list \<Rightarrow> simulator \<Rightarrow> rat \<Rightarrow> csv_row list
     \<Rightarrow> (py_error + rat \<times> simulator \<times> csv_row list) option" where
  "batch_loop batch_size [] [] self current_time csv_writer = Some (Inr (current_time, self, csv_writer))"
| "batch_loop batch_size [] (evs # evss) self current_time csv_writer = None"
| "batch_loop batch_size (i # is) [] self current_time csv_writer = None"
| "batch_loop batch_size (i # is) (evs # evss) self current_time csv_writer =
     (let total_tasks = length (workload self);
          batch_end = min (i + nat batch_size) total_tasks;
          batch_data = take (batch_end - i) (drop i (workload self));
          batch_tasks = map OptimizedTask batch_data
      in (case simulate_batch evs self batch_tasks current_time csv_writer of
            None \<Rightarrow> None
          | Some (Inl e) \<Rightarrow> Some (Inl e)
          | Some (Inr (current_time', self', csv_writer')) \<Rightarrow>
              batch_loop batch_size is evss self' current_time' csv_writer'))"

text \<open>
  \<^verbatim>\<open>simulate\<close>. \<open>Some (Inr None)\<close> is the early \<^verbatim>\<open>return None\<close> after a failed
  validation; otherwise the result is the simulator with its final counters and the
  rows streamed to the CSV file. \<^verbatim>\<open>range\<close> raises \<^verbatim>\<open>ValueError\<close> for a zero step.
\<close>

definition simulate ::
  "environment \<Rightarrow> event list list \<Rightarrow> simulator \<Rightarrow> int
     \<Rightarrow> (py_error + (simulator \<times> csv_row list) option) option" where
  "simulate env evss self batch_size =
     (case validate_workload env self of
        Inl e \<Rightarrow> Some (Inl e)
      | Inr ok \<Rightarrow>
          if \<not> ok then Some (Inr None)
          else if batch_size = 0 then Some (Inl ValueError)
          else
            (case batch_loop batch_size (range0 (length (workload self)) batch_size) evss self 0 [] of
               None \<Rightarrow> None
             | Some (Inl e) \<Rightarrow> Some (Inl e)
             | Some (Inr (current_time, self', csv_writer)) \<Rightarrow> Some (Inr (Some (self', csv_writer)))))"

text \<open>
  \<^verbatim>\<open>main\<close>, from the parsed command line on. The configuration is the workload list of
  the JSON document on standard input, \<open>None\<close> when the document does not parse.
  Every exception of the simulation is caught and turned into exit code 1.
\<close>

record args =
  a_max_tasks :: "int option"
  a_batch_size :: int
  a_concurrency :: int
  a_cold_start_ms :: rat
  a_container_reuse :: bool
  a_reuse_ttl :: rat
  a_enable_cost_model :: bool

definition default_args :: args where
  "default_args = \<lparr>a_max_tasks = None, a_batch_size = 1000, a_concurrency = 1,
     a_cold_start_ms = 100, a_container_reuse = True, a_reuse_ttl = 60,
     a_enable_cost_model = True\<rparr>"

record outcome =
  exit_code :: int
  printed :: "message list"
  final :: "(simulator \<times> csv_row list) option"

definition main :: "args \<Rightarrow> task_def list option \<Rightarrow> environment \<Rightarrow> event list list \<Rightarrow> outcome option" where
  "main a config env evss =
     (case config of
        None \<Rightarrow> Some \<lparr>exit_code = 1, printed = [], final = None\<rparr>
      | Some wl \<Rightarrow>
          (case init_simulator wl (a_max_tasks a) (a_concurrency a) (a_cold_start_ms a)
                  (a_container_reuse a) (a_reuse_ttl a) (a_enable_cost_model a) of
             (simulator, msgs) \<Rightarrow>
               (case simulate env evss simulator (a_batch_size a) of
                  None \<Rightarrow> None
                | Some (Inl e) \<Rightarrow> Some \<lparr>exit_code = 1, printed = msgs, final = None\<rparr>
                | Some (Inr results) \<Rightarrow> Some \<lparr>exit_code = 0, printed = msgs, final = results\<rparr>)))"


section \<open>The priority queue of Scheduler/queue.py\<close>

text \<open>\<^verbatim>\<open>Task\<close> of task\_metadata.py.\<close>

record qtask =
  q_name :: string
  q_script_path :: string
  q_deadline :: rat
  q_est_runtime :: rat
  q_args :: "string list"
  q_enqueued_time :: "rat option"
  q_deadline_str :: "string option"

text \<open>
  A heap entry is the tuple \<^verbatim>\<open>(priority, self._counter, task)\<close> with
  \<^verbatim>\<open>priority = (task.deadline, task.est_runtime)\<close>. Python compares tuples
  lexicographically; \<open>entry_lt\<close> is that comparison on the priority and the counter.
  The task itself would be compared only between two entries with equal priority and
  equal counter; the counter grows with every push, so the entries of a queue have
  distinct counters (lemma \<open>entries_of_distinct_keys\<close>).
\<close>

type_synonym heap_entry = "(rat \<times> rat) \<times> nat \<times> qtask"

definition entry_key :: "heap_entry \<Rightarrow> (rat \<times> rat) \<times> nat" where
  "entry_key e = (fst e, fst (snd e))"

definition entry_lt :: "heap_entry \<Rightarrow> heap_entry \<Rightarrow> bool" where
  "entry_lt a b = (entry_key a < entry_key b)"

text \<open>
  The functions of Python's \<^verbatim>\<open>heapq\<close> module that the queue calls, on a list:
  \<^verbatim>\<open>_siftdown\<close> (the loop with \<^verbatim>\<open>newitem\<close> held aside, then the function),
  \<^verbatim>\<open>_siftup\<close> (the loop that moves the smaller child up until a leaf is reached,
  returning the list and the leaf position, then the function), \<^verbatim>\<open>heappush\<close> and
  \<^verbatim>\<open>heappop\<close>. \<^verbatim>\<open>heappop\<close> of an empty list raises \<^verbatim>\<open>IndexError\<close>: \<open>None\<close>.
\<close>

function siftdown_loop :: "heap_entry list \<Rightarrow> nat \<Rightarrow> nat \<Rightarrow> heap_entry \<Rightarrow> heap_entry list" where
  "siftdown_loop heap startpos pos newitem =
     (if pos > startpos then
        (let parentpos = (pos - 1) div 2;
             parent = heap ! parentpos
         in if entry_lt newitem parent
            then siftdown_loop (heap[pos := parent]) startpos parentpos newitem
            else heap[pos := newitem])
      else heap[pos := newitem])"
  by pat_completeness auto
termination
  by (relation "measure (\<lambda>(heap, startpos, pos, newitem). pos)") auto

definition siftdown :: "heap_entry list \<Rightarrow> nat \<Rightarrow> nat \<Rightarrow> heap_entry list" where
  "siftdown heap startpos pos = siftdown_loop heap startpos pos (heap ! pos)"

function siftup_loop :: "heap_entry list \<Rightarrow> nat \<Rightarrow> nat \<Rightarrow> heap_entry list \<times> nat" where
  "siftup_loop heap endpos pos =
     (let childpos = 2 * pos + 1 in
      if childpos < endpos then
        (let rightpos = childpos + 1;
             childpos' = (if rightpos < endpos \<and> \<not> entry_lt (heap ! childpos) (heap ! rightpos)
                          then rightpos else childpos)
         in siftup_loop (heap[pos := heap ! childpos']) endpos childpos')
      else (heap, pos))"
  by pat_completeness auto
termination
  by (relation "measure (\<lambda>(heap, endpos, pos). endpos - pos)") auto

definition siftup :: "heap_entry list \<Rightarrow> nat \<Rightarrow> heap_entry list" where
  "siftup heap pos =
     (let endpos = length heap;
          startpos = pos;
          newitem = heap ! pos
      in case siftup_loop heap endpos pos of
           (heap', pos') \<Rightarrow> siftdown (heap'[pos' := newitem]) startpos pos')"

declare siftdown_loop.simps [simp del] siftup_loop.simps [simp del]

definition heappush :: "heap_entry list \<Rightarrow> heap_entry \<Rightarrow> heap_entry list" where
  "heappush heap item = (let heap' = heap @ [item] in siftdown heap' 0 (length heap' - 1))"

definition heappop :: "heap_entry list \<Rightarrow> (heap_entry \<times> heap_entry list) option" where
  "heappop heap =
     (if heap = [] then None
      else
        let lastelt = last heap;
            heap' = butlast heap
        in if heap' \<noteq> [] then
             (let returnitem = heap' ! 0;
                  heap'' = heap'[0 := lastelt]
              in Some (returnitem, siftup heap'' 0))
           else Some (lastelt, heap'))"

text \<open>
  \<^verbatim>\<open>TaskQueue\<close>: the heap and the counter. \<^verbatim>\<open>enqueue\<close> stamps the task with
  \<^verbatim>\<open>time.time()\<close>, here the argument \<open>now\<close>; \<^verbatim>\<open>dequeue\<close> returns \<^verbatim>\<open>None\<close> on an
  empty queue.
\<close>

record task_queue =
  tq_heap :: "heap_entry list"
  tq_counter :: nat

definition TaskQueue :: task_queue where
  "TaskQueue = \<lparr>tq_heap = [], tq_counter = 0\<rparr>"

definition get_priority :: "qtask \<Rightarrow> rat \<times> rat" where
  "get_priority task = (q_deadline task, q_est_runtime task)"

definition enqueue :: "rat \<Rightarrow> task_queue \<Rightarrow> qtask \<Rightarrow> task_queue" where
  "enqueue now self task =
     (let task' = task\<lparr>q_enqueued_time := Some now\<rparr>;
          priority = get_priority task'
      in \<lparr>tq_heap = heappush (tq_heap self) (priority, tq_counter self, task'),
          tq_counter = tq_counter self + 1\<rparr>)"

definition dequeue :: "task_queue \<Rightarrow> qtask option \<times> task_queue" where
  "dequeue self =
     (if tq_heap self \<noteq> [] then
        (case heappop (tq_heap self) of
           None \<Rightarrow> (None, self)
         | Some (item, heap') \<Rightarrow> (Some (snd (snd item)), self\<lparr>tq_heap := heap'\<rparr>))
      else (None, self))"

text \<open>A sequence of pushes, each with its wall-clock reading, and \<open>n\<close> successive pops.\<close>

fun enqueue_all :: "task_queue \<Rightarrow> (rat \<times> qtask) list \<Rightarrow> task_queue" where
  "enqueue_all self [] = self"
| "enqueue_all self ((now, task) # pushes) = enqueue_all (enqueue now self task) pushes"

fun dequeue_n :: "nat \<Rightarrow> task_queue \<Rightarrow> qtask option list" where
  "dequeue_n 0 self = []"
| "dequeue_n (Suc n) self = (case dequeue self of (r, self') \<Rightarrow> r # dequeue_n n self')"

text \<open>The pushed tasks as the queue holds them, in insertion order.\<close>

definition stamped :: "(rat \<times> qtask) list \<Rightarrow> qtask list" where
  "stamped pushes = map (\<lambda>(now, task). task\<lparr>q_enqueued_time := Some now\<rparr>) pushes"

definition mk_qtask :: "string \<Rightarrow> rat \<Rightarrow> rat \<Rightarrow> qtask" where
  "mk_qtask n d r = \<lparr>q_name = n, q_script_path = ''s.py'', q_deadline = d, q_est_runtime = r,
     q_args = [], q_enqueued_time = None, q_deadline_str = None\<rparr>"

text \<open>
  For the proofs: the heap property of a list, the heap property with one position
  exempt (\<open>heap_except\<close>: the position may be smaller than its parent) or emptied
  (\<open>hole_heap\<close>: the position takes part in no comparison), the entries that a sequence
  of pushes creates, and the entries that \<open>n\<close> pops remove.
\<close>

definition is_heap :: "heap_entry list \<Rightarrow> bool" where
  "is_heap h = (\<forall>i. 0 < i \<and> i < length h \<longrightarrow> entry_key (h ! ((i - 1) div 2)) \<le> entry_key (h ! i))"

definition heap_except :: "heap_entry list \<Rightarrow> nat \<Rightarrow> bool" where
  "heap_except h p =
     ((\<forall>i. 0 < i \<and> i < length h \<and> i \<noteq> p \<longrightarrow> entry_key (h ! ((i - 1) div 2)) \<le> entry_key (h ! i)) \<and>
      (\<forall>c. 0 < p \<and> 0 < c \<and> c < length h \<and> (c - 1) div 2 = p \<longrightarrow>
           entry_key (h ! ((p - 1) div 2)) \<le> entry_key (h ! c)))"

definition hole_heap :: "heap_entry list \<Rightarrow> nat \<Rightarrow> bool" where
  "hole_heap h p =
     ((\<forall>i. 0 < i \<and> i < length h \<and> i \<noteq> p \<and> (i - 1) div 2 \<noteq> p \<longrightarrow>
           entry_key (h ! ((i - 1) div 2)) \<le> entry_key (h ! i)) \<and>
      (\<forall>c. 0 < p \<and> 0 < c \<and> c < length h \<and> (c - 1) div 2 = p \<longrightarrow>
           entry_key (h ! ((p - 1) div 2)) \<le> entry_key (h ! c)))"

fun entries_of :: "nat \<Rightarrow> (rat \<times> qtask) list \<Rightarrow> heap_entry list" where
  "entries_of c [] = []"
| "entries_of c ((now, task) # pushes) =
     (get_priority (task\<lparr>q_enqueued_time := Some now\<rparr>), c, task\<lparr>q_enqueued_time := Some now\<rparr>)
       # entries_of (Suc c) pushes"

fun pop_n :: "nat \<Rightarrow> heap_entry list \<Rightarrow> heap_entry list" where
  "pop_n 0 h = []"
| "pop_n (Suc n) h = (case heappop h of None \<Rightarrow> [] | Some (e, h') \<Rightarrow> e # pop_n n h')"

section \<open>Auxiliary definitions for the statements\<close>

text \<open>
  The interleaving in which every task is run and collected before the next one is
  run; it exists for every batch.
\<close>

definition sequential_events :: "nat \<Rightarrow> string \<Rightarrow> event list" where
  "sequential_events n now = concat (replicate n [Run, Yield 0 now])"

text \<open>The fields of a result that the two sequential simulators have in common.\<close>

type_synonym seq_fields =
  "string \<times> rat option \<times> rat option \<times> rat option \<times> rat option \<times> rat option \<times> string option"

definition cs_view :: "cs_task \<Rightarrow> seq_fields" where
  "cs_view t = (cs_id t, cs_enqueue_time t, cs_start_time t, cs_end_time t,
     cs_execution_time t, cs_queue_time t, cs_deadline_status t)"

definition rf_view :: "rf_task \<Rightarrow> seq_fields" where
  "rf_view t = (rf_id t, rf_enqueue_time t, rf_start_time t, rf_end_time t,
     rf_execution_time t, rf_queue_time t, rf_deadline_status t)"

definition seq_view :: "rat \<Rightarrow> task_def \<Rightarrow> seq_fields" where
  "seq_view c td =
     (let s = max c (td_arrival_time td); x = est_runtime_or_1 (get_payload td) in
      (td_id td, Some (td_arrival_time td), Some s, Some (s + x), Some x,
       Some (s - td_arrival_time td),
       Some (if s + x > td_deadline td then ''missed'' else ''on-time'')))"

text \<open>Concrete inputs: a workload item, the simulator and the arguments of a default run.\<close>

definition mk_task :: "string \<Rightarrow> rat \<Rightarrow> rat \<Rightarrow> rat \<Rightarrow> string \<Rightarrow> int \<Rightarrow> task_def" where
  "mk_task i arrival dl runtime fn mem =
     \<lparr>td_id = i, td_arrival_time = arrival, td_deadline = dl,
      td_payload = Some \<lparr>p_name = None, p_est_runtime = Some runtime, p_trigger_type = None\<rparr>,
      td_function_name = fn,
      td_metadata = Some \<lparr>m_trigger = None, m_memory_mb = Some mem\<rparr>\<rparr>"

definition default_simulator :: simulator where
  "default_simulator = fst (init_simulator [] None 1 100 True 60 True)"

definition quiet_env :: environment where
  "quiet_env = \<lparr>stdin_isatty = False, user_response = None\<rparr>"

text \<open>A task that has run for one second and whose metadata ask for 1024 MB.\<close>

definition big_memory_task :: otask where
  "big_memory_task = (OptimizedTask (mk_task ''m'' 0 10 1 ''f'' 1024))\<lparr>o_execution_time := Some 1\<rparr>"

text \<open>
  The columns of a result row that do not depend on the clock: what a row shows of
  them, and what the task it was written for determines.
\<close>

type_synonym static_fields = "string \<times> string \<times> string \<times> rat option \<times> rat option \<times> rat"

definition static_cols :: "csv_row \<Rightarrow> static_fields" where
  "static_cols r = (TaskName r, TaskID r, TriggerType r, EnqueueTime r, ExecDuration r, Deadline r)"

definition task_static :: "otask \<Rightarrow> static_fields" where
  "task_static t =
     ((case p_name (o_payload t) of None \<Rightarrow> o_id t | Some n \<Rightarrow> n), o_id t, o_trigger_type t,
      Some (o_arrival_time t), Some (est_runtime_or_1 (o_payload t)), o_deadline t)"

text \<open>
  \<open>row_for cs t r\<close>: the row \<open>r\<close> is a result row for the task \<open>t\<close> under the
  cold-start delay \<open>cs\<close>. \<open>exec_of cs t d\<close>: the future \<open>d\<close> holds a result whose
  row is one for \<open>t\<close>. \<open>config_of\<close>: the members of the simulator that a run never
  assigns. \<open>chunk\<close>: the slice \<^verbatim>\<open>workload[i:batch_end]\<close>. These are used in the
  proofs about whole runs.
\<close>

definition row_for :: "rat \<Rightarrow> otask \<Rightarrow> csv_row \<Rightarrow> bool" where
  "row_for cs t r =
     (static_cols r = task_static t \<and>
      (\<exists>s. StartTime r = Some s \<and> (0 \<le> cs \<longrightarrow> o_arrival_time t \<le> s) \<and>
           EndTime r = Some (s + est_runtime_or_1 (o_payload t)) \<and>
           WaitTime r = Some (s - o_arrival_time t) \<and>
           DeadlineStatus r =
             Some (if s + est_runtime_or_1 (o_payload t) > o_deadline t then ''missed'' else ''on-time'')))"

definition config_of :: "simulator \<Rightarrow> task_def list \<times> int option \<times> int \<times> rat \<times> bool \<times> rat \<times> bool" where
  "config_of self = (workload self, max_tasks self, concurrency self, cold_start_ms self,
     container_reuse self, reuse_ttl self, enable_cost_model self)"

definition exec_of :: "rat \<Rightarrow> otask \<Rightarrow> (py_error + otask \<times> rat \<times> rat) \<Rightarrow> bool" where
  "exec_of cs t d = (\<exists>t' e c. d = Inr (t', e, c) \<and> (\<forall>now rows. row_for cs t (last (write_result now rows t'))))"

definition chunk :: "int \<Rightarrow> 'a list \<Rightarrow> nat \<Rightarrow> 'a list" where
  "chunk batch_size wl i = take (min (i + nat batch_size) (length wl) - i) (drop i wl)"

text \<open>The simulator that \<open>main\<close> constructs from its arguments.\<close>

definition start_simulator :: "args \<Rightarrow> task_def list \<Rightarrow> simulator \<times> message list" where
  "start_simulator a wl = init_simulator wl (a_max_tasks a) (a_concurrency a) (a_cold_start_ms a)
     (a_container_reuse a) (a_reuse_ttl a) (a_enable_cost_model a)"

text \<open>
  Two tasks that arrive together, each running for 5 seconds with deadline 6, and the
  two ways a single worker and the collecting loop can interleave on them.
\<close>

definition two_tasks :: "task_def list" where
  "two_tasks = [mk_task ''t1'' 0 6 5 ''f'' 256, mk_task ''t2'' 0 6 5 ''g'' 256]"

definition one_after_another :: "event list list" where
  "one_after_another = [[Run, Yield 0 ''n1'', Run, Yield 0 ''n2'']]"

definition both_before_collecting :: "event list list" where
  "both_before_collecting = [[Run, Run, Yield 0 ''n1'', Yield 0 ''n2'']]"

text \<open>What a result of the sequential simulator must satisfy to be consistent.\<close>

definition cs_consistent :: "cs_task \<Rightarrow> bool" where
  "cs_consistent t =
     (\<exists>s x. cs_start_time t = Some s \<and> cs_execution_time t = Some x \<and>
        cs_end_time t = Some (s + x) \<and> cs_arrival_time t \<le> s \<and>
        cs_deadline_status t = Some (if s + x > cs_deadline t then ''missed'' else ''on-time''))"

section \<open>Evaluating a run\<close>

text \<open>The definitions that a concrete run of \<open>main\<close> unfolds.\<close>

lemmas run_defs = main_def default_args_def init_simulator_def simulate_def validate_workload_def
      quiet_env_def range0_def simulate_batch_def OptimizedTask_def mk_task_def Let_def
      execute_task_def get_container_delay_def compute_cost_def collect_def write_result_def
      get_payload_def get_metadata_def est_runtime_or_1_def slice_to_def

section \<open>The two sequential simulators compute the same timings\<close>

lemma insort_key_map: "insort_key f (g x) (map g ys) = map g (insort_key (\<lambda>a. f (g a)) x ys)"
  by (induction ys) simp_all

lemma sort_key_map: "sort_key f (map g xs) = map g (sort_key (\<lambda>a. f (g a)) xs)"
  by (induction xs) (simp_all add: insort_key_map)

lemma cs_arrival_Task: "cs_arrival_time (cs_Task td) = td_arrival_time td"
  by (simp add: cs_Task_def)

lemma rf_arrival_Task: "rf_arrival_time (rf_Task td) = td_arrival_time td"
  by (simp add: rf_Task_def)

lemma cs_step_fst:
  "fst (cs_step (c, rs, m) (cs_Task td)) = max c (td_arrival_time td) + est_runtime_or_1 (get_payload td)"
  by (simp add: cs_step_def cs_Task_def Let_def)

lemma rf_step_fst:
  "fst (rf_step (c, rs, a) (rf_Task td)) = max c (td_arrival_time td) + est_runtime_or_1 (get_payload td)"
  by (simp add: rf_step_def rf_Task_def Let_def)

lemma cs_step_view:
  "map cs_view (fst (snd (cs_step (c, rs, m) (cs_Task td)))) = map cs_view rs @ [seq_view c td]"
  by (simp add: cs_step_def cs_Task_def Let_def cs_view_def seq_view_def)

lemma rf_step_view:
  "map rf_view (fst (snd (rf_step (c, rs, a) (rf_Task td)))) = map rf_view rs @ [seq_view c td]"
  by (simp add: rf_step_def rf_Task_def Let_def rf_view_def seq_view_def)

lemma foldl_agree:
  "map cs_view rs = map rf_view rs' \<Longrightarrow>
   fst (foldl cs_step (c, rs, m) (map cs_Task tds)) = fst (foldl rf_step (c, rs', a) (map rf_Task tds)) \<and>
   map cs_view (fst (snd (foldl cs_step (c, rs, m) (map cs_Task tds)))) =
   map rf_view (fst (snd (foldl rf_step (c, rs', a) (map rf_Task tds))))"
proof (induction tds arbitrary: c rs rs' m a)
  case Nil
  then show ?case by simp
next
  case (Cons td tds)
  obtain c1 rs1 m1 where s1: "cs_step (c, rs, m) (cs_Task td) = (c1, rs1, m1)"
    by (cases "cs_step (c, rs, m) (cs_Task td)") auto
  obtain c2 rs2 a2 where s2: "rf_step (c, rs', a) (rf_Task td) = (c2, rs2, a2)"
    by (cases "rf_step (c, rs', a) (rf_Task td)") auto
  have "c1 = c2"
    using cs_step_fst[of c rs m td] rf_step_fst[of c rs' a td] s1 s2 by simp
  moreover have "map cs_view rs1 = map rf_view rs2"
    using cs_step_view[of c rs m td] rf_step_view[of c rs' a td] s1 s2 Cons.prems by simp
  ultimately show ?case
    using Cons.IH[of rs1 rs2 c1 m1 a2] s1 s2 by simp
qed

lemma views_agree: "map cs_view (cs_simulate w) = map rf_view (rf_simulate w)"
  unfolding cs_simulate_def rf_simulate_def cs_run_def rf_run_def Let_def
  by (simp add: sort_key_map cs_arrival_Task rf_arrival_Task foldl_agree)

lemma views_project:
  "map cs_view xs = map rf_view ys \<Longrightarrow> map (p \<circ> cs_view) xs = map (p \<circ> rf_view) ys"
  by (metis map_map)

text \<open>
  Claim C10. For every workload the simulator of custom\_simulator.py and the one of
  run\_sim\_final.py return their tasks in the same order, and the tasks at the same
  position have the same id, enqueue time, start time, end time, execution time,
  queue time and deadline status.
\<close>

theorem sequential_simulators_agree:
  "map cs_id (cs_simulate w) = map rf_id (rf_simulate w) \<and>
   map cs_enqueue_time (cs_simulate w) = map rf_enqueue_time (rf_simulate w) \<and>
   map cs_start_time (cs_simulate w) = map rf_start_time (rf_simulate w) \<and>
   map cs_end_time (cs_simulate w) = map rf_end_time (rf_simulate w) \<and>
   map cs_execution_time (cs_simulate w) = map rf_execution_time (rf_simulate w) \<and>
   map cs_queue_time (cs_simulate w) = map rf_queue_time (rf_simulate w) \<and>
   map cs_deadline_status (cs_simulate w) = map rf_deadline_status (rf_simulate w)"
proof -
  note P = views_project[OF views_agree[of w]]
  show ?thesis
    using P[of fst] P[of "fst \<circ> snd"] P[of "fst \<circ> snd \<circ> snd"] P[of "fst \<circ> snd \<circ> snd \<circ> snd"]
      P[of "fst \<circ> snd \<circ> snd \<circ> snd \<circ> snd"] P[of "fst \<circ> snd \<circ> snd \<circ> snd \<circ> snd \<circ> snd"]
      P[of "snd \<circ> snd \<circ> snd \<circ> snd \<circ> snd \<circ> snd"]
    by (simp add: comp_def cs_view_def rf_view_def)
qed

section \<open>Simultaneous arrivals\<close>

text \<open>
  Claim C3. Two tasks arrive at time 0 with the same estimated runtime, the first of
  the workload with deadline 10 and the second with deadline 5. The simulator of
  custom\_simulator.py orders by arrival time only, so the task with deadline 10
  starts first, at 0, and the task with deadline 5 starts after it, at 1. The batch
  engine keeps the same order: the task with deadline 10 starts at 0.1, and the task
  with deadline 5 at 1.2 or at 0.1, depending on the interleaving, never before it.
\<close>

theorem simultaneous_arrivals_keep_workload_order:
  "map (\<lambda>t. (cs_id t, cs_deadline t, cs_start_time t))
       (cs_simulate [mk_task ''A'' 0 10 1 ''f'' 256, mk_task ''B'' 0 5 1 ''f'' 256])
     = [(''A'', 10, Some 0), (''B'', 5, Some 1)] \<and>
   map_option (\<lambda>out. map_option (\<lambda>(s, rows). map (\<lambda>r. (TaskID r, Deadline r, StartTime r)) rows) (final out))
     (main default_args (Some [mk_task ''A'' 0 10 1 ''f'' 256, mk_task ''B'' 0 5 1 ''f'' 256])
        quiet_env [[Run, Yield 0 ''n1'', Run, Yield 0 ''n2'']])
     = Some (Some [(''A'', 10, Some (1 / 10)), (''B'', 5, Some (6 / 5))]) \<and>
   map_option (\<lambda>out. map_option (\<lambda>(s, rows). map (\<lambda>r. (TaskID r, Deadline r, StartTime r)) rows) (final out))
     (main default_args (Some [mk_task ''A'' 0 10 1 ''f'' 256, mk_task ''B'' 0 5 1 ''f'' 256])
        quiet_env [[Run, Run, Yield 0 ''n1'', Yield 0 ''n2'']])
     = Some (Some [(''A'', 10, Some (1 / 10)), (''B'', 5, Some (1 / 10))])"
proof (intro conjI)
  show "map (\<lambda>t. (cs_id t, cs_deadline t, cs_start_time t))
       (cs_simulate [mk_task ''A'' 0 10 1 ''f'' 256, mk_task ''B'' 0 5 1 ''f'' 256])
     = [(''A'', 10, Some 0), (''B'', 5, Some 1)]"
    by (simp add: cs_simulate_def cs_run_def cs_step_def cs_Task_def mk_task_def Let_def
        get_payload_def est_runtime_or_1_def cs_metrics0_def)
qed (simp_all add: run_defs)

section \<open>Container delay\<close>

text \<open>
  Claim C5. With reuse enabled, a time-to-live of 60 and a cold start of 100 ms, a
  function is invoked at time 0 and again at time 30. The second call is within the
  time-to-live, yet it returns the cold-start delay and not 0: the time 0 stored by
  the first call is read as "no container".
\<close>

theorem warm_reuse_lost_after_invocation_at_time_zero:
  "(case get_container_delay default_simulator ''f'' 0 of (d1, self1) \<Rightarrow>
      case get_container_delay self1 ''f'' 30 of (d2, self2) \<Rightarrow> (d1, d2)) = (1 / 10, 1 / 10)"
  by (simp add: get_container_delay_def default_simulator_def init_simulator_def Let_def)

text \<open>What the function does return, for every state of the cache.\<close>

lemma container_delay_reuse_disabled:
  "\<not> container_reuse self \<Longrightarrow> get_container_delay self fn t = (cold_start_ms self, self)"
  by (simp add: get_container_delay_def)

lemma container_delay_first_call:
  "container_reuse self \<Longrightarrow> container_cache self fn = None \<Longrightarrow>
   fst (get_container_delay self fn t) = cold_start_ms self \<and>
   container_cache (snd (get_container_delay self fn t)) fn = Some t"
  by (simp add: get_container_delay_def Let_def)

lemma container_delay_second_call:
  "container_reuse self \<Longrightarrow> container_cache self fn = Some t1 \<Longrightarrow> t1 \<noteq> 0 \<Longrightarrow>
   fst (get_container_delay self fn t2) = (if t2 - t1 \<le> reuse_ttl self then 0 else cold_start_ms self)"
  by (simp add: get_container_delay_def Let_def)

lemma container_delay_after_time_zero:
  "container_reuse self \<Longrightarrow> container_cache self fn = Some 0 \<Longrightarrow>
   fst (get_container_delay self fn t2) = cold_start_ms self"
  by (simp add: get_container_delay_def Let_def)

section \<open>Cost\<close>

text \<open>
  Claim C7, as stated, at a task of 1024 MB that ran for one second: the claim's
  formula with the task's memory gives \<open>(1024 / 1024) * 1 * 0.00001667 + 0.0000002\<close>;
  the code charges a quarter of a GB-second.
\<close>

theorem cost_ignores_task_memory:
  "m_memory_mb (o_metadata big_memory_task) = Some 1024 \<and>
   o_execution_time big_memory_task = Some 1 \<and>
   compute_cost default_simulator big_memory_task
     = Inr ((256 / 1024) * 1 * (1667 / 100000000) + 2 / 10000000) \<and>
   compute_cost default_simulator big_memory_task
     \<noteq> Inr ((1024 / 1024) * 1 * (1667 / 100000000) + 2 / 10000000)"
  by (simp add: compute_cost_def default_simulator_def init_simulator_def big_memory_task_def
      OptimizedTask_def mk_task_def get_metadata_def Let_def)

text \<open>
  Claim C7, amended. With the cost model enabled, the cost of a task that ran for
  \<open>x\<close> seconds is \<open>(256 / 1024) * x * 0.00001667 + 0.0000002\<close>, whatever memory the
  task's metadata name; it is not negative when \<open>x\<close> is not negative. With the cost
  model disabled the cost is 0.
\<close>

theorem compute_cost_fixed_memory:
  "(enable_cost_model self \<longrightarrow> o_execution_time task = Some x \<longrightarrow>
      compute_cost self task = Inr ((256 / 1024) * x * (1667 / 100000000) + 2 / 10000000)) \<and>
   (enable_cost_model self \<longrightarrow> o_execution_time task = Some x \<longrightarrow> 0 \<le> x \<longrightarrow>
      (\<exists>c. compute_cost self task = Inr c \<and> 0 \<le> c)) \<and>
   (\<not> enable_cost_model self \<longrightarrow> compute_cost self task = Inr 0)"
  by (simp add: compute_cost_def Let_def)

theorem compute_cost_fixed_memory_witness:
  "enable_cost_model default_simulator \<and> o_execution_time big_memory_task = Some 1 \<and>
   compute_cost default_simulator big_memory_task = Inr (1747 / 400000000) \<and>
   compute_cost (default_simulator\<lparr>enable_cost_model := False\<rparr>) big_memory_task = Inr 0"
proof -
  have e: "enable_cost_model default_simulator"
    by (simp add: default_simulator_def init_simulator_def Let_def)
  have x: "o_execution_time big_memory_task = Some 1"
    by (simp add: big_memory_task_def)
  have d: "\<not> enable_cost_model (default_simulator\<lparr>enable_cost_model := False\<rparr>)"
    by simp
  show ?thesis
    using compute_cost_fixed_memory[of default_simulator big_memory_task 1]
      compute_cost_fixed_memory[of "default_simulator\<lparr>enable_cost_model := False\<rparr>" big_memory_task 1]
      e x d by simp
qed

section \<open>The clock inside a batch\<close>

text \<open>
  Claim C1. A batch of two tasks that arrive at time 0 and run for 5 seconds, with
  the default configuration (one worker, cold start 0.1). The worker runs both calls
  of \<^verbatim>\<open>execute_task\<close> before the submitting thread has consumed a future, so both
  read \<^verbatim>\<open>current_time = 0\<close>: the second task starts at 0.1 and ends at 5.1, as the
  first does. Processing against the shared clock would start it at
  \<open>max 5.1 0 + 0.1 = 5.2\<close>.
\<close>

theorem batch_clock_not_advanced_between_tasks:
  "map_option (\<lambda>out. map_option (\<lambda>(s, rows). map (\<lambda>r. (TaskID r, StartTime r, EndTime r)) rows) (final out))
     (main default_args
        (Some [mk_task ''t1'' 0 100 5 ''f'' 256, mk_task ''t2'' 0 100 5 ''g'' 256]) quiet_env
        [[Run, Run, Yield 0 ''n1'', Yield 0 ''n2'']])
   = Some (Some [(''t1'', Some (1 / 10), Some (51 / 10)), (''t2'', Some (1 / 10), Some (51 / 10))])"
  by (simp add: run_defs)

section \<open>Runs of the batch engine\<close>

subsection \<open>One call of \<^verbatim>\<open>execute_task\<close> and one pass of the collecting loop\<close>

lemma get_container_delay_config:
  "config_of (snd (get_container_delay self fn t)) = config_of self"
  by (simp add: get_container_delay_def config_of_def Let_def split: option.splits)

lemma get_container_delay_values:
  "fst (get_container_delay self fn t) = cold_start_ms self \<or> fst (get_container_delay self fn t) = 0"
  by (simp add: get_container_delay_def Let_def split: option.splits)

lemma get_container_delay_stats:
  "stats_total_tasks (snd (get_container_delay self fn t)) = stats_total_tasks self"
  by (simp add: get_container_delay_def Let_def split: option.splits)

lemma execute_task_config:
  "config_of (snd (execute_task self c t)) = config_of self"
proof -
  obtain d self' where g: "get_container_delay self (o_function_name t) (max c (o_arrival_time t)) = (d, self')"
    by (cases "get_container_delay self (o_function_name t) (max c (o_arrival_time t))") auto
  have "config_of self' = config_of self"
    using get_container_delay_config[of self "o_function_name t" "max c (o_arrival_time t)"] g by simp
  then show ?thesis
    by (simp add: execute_task_def Let_def g split: sum.splits)
qed

lemma execute_task_stats:
  "stats_total_tasks (snd (execute_task self c t)) = stats_total_tasks self"
proof -
  obtain d self' where g: "get_container_delay self (o_function_name t) (max c (o_arrival_time t)) = (d, self')"
    by (cases "get_container_delay self (o_function_name t) (max c (o_arrival_time t))") auto
  have "stats_total_tasks self' = stats_total_tasks self"
    using get_container_delay_stats[of self "o_function_name t" "max c (o_arrival_time t)"] g by simp
  then show ?thesis
    by (simp add: execute_task_def Let_def g split: sum.splits)
qed

lemma execute_task_exec_of:
  "exec_of (cold_start_ms self) t (fst (execute_task self c t))"
proof -
  obtain d self' where g: "get_container_delay self (o_function_name t) (max c (o_arrival_time t)) = (d, self')"
    by (cases "get_container_delay self (o_function_name t) (max c (o_arrival_time t))") auto
  have d: "d = cold_start_ms self \<or> d = 0"
    using get_container_delay_values[of self "o_function_name t" "max c (o_arrival_time t)"] g by simp
  have "0 \<le> cold_start_ms self \<longrightarrow> 0 \<le> d" using d by auto
  then have le: "0 \<le> cold_start_ms self \<longrightarrow> o_arrival_time t \<le> max c (o_arrival_time t) + d"
    by auto
  show ?thesis
    using le
    by (simp add: execute_task_def Let_def g compute_cost_def exec_of_def row_for_def
        write_result_def static_cols_def task_static_def split: option.splits)
qed

lemma collect_fields:
  "bs_csv (collect now s (t, e, c)) = write_result now (bs_csv s) t"
  "bs_queue (collect now s (t, e, c)) = bs_queue s"
  "bs_done (collect now s (t, e, c)) = bs_done s"
  "config_of (bs_self (collect now s (t, e, c))) = config_of (bs_self s)"
  "stats_total_tasks (bs_self (collect now s (t, e, c))) = Suc (stats_total_tasks (bs_self s))"
  by (simp_all add: collect_def Let_def config_of_def)

lemma write_result_snoc: "write_result now rows t = rows @ [last (write_result now rows t)]"
  by (simp add: write_result_def)

lemma config_of_cold: "config_of a = config_of b \<Longrightarrow> cold_start_ms a = cold_start_ms b"
  by (simp add: config_of_def)

lemma config_of_fields:
  "config_of a = config_of b \<Longrightarrow> workload a = workload b \<and> concurrency a = concurrency b"
  by (simp add: config_of_def)

lemma mset_remove_nth:
  "i < length xs \<Longrightarrow> mset xs = {#xs ! i#} + mset (take i xs @ drop (Suc i) xs)"
proof -
  assume "i < length xs"
  then have "xs = take i xs @ xs ! i # drop (Suc i) xs" by (rule id_take_nth_drop)
  then have "mset xs = mset (take i xs @ xs ! i # drop (Suc i) xs)" by simp
  then show ?thesis by simp
qed

subsection \<open>A batch under any interleaving\<close>

text \<open>
  Whatever the interleaving, a batch that completes has written one row for each of
  its tasks, each row a result row for its task, and has counted each task once.
\<close>

lemma run_events_rows:
  "run_events evs s = Some res \<Longrightarrow> list_all2 (exec_of cs) dts (bs_done s) \<Longrightarrow>
   cold_start_ms (bs_self s) = cs \<Longrightarrow>
   \<exists>s' ts new. res = Inr s' \<and> mset ts = mset dts + mset (bs_queue s) \<and>
      bs_csv s' = bs_csv s @ new \<and> list_all2 (row_for cs) ts new \<and>
      stats_total_tasks (bs_self s') = stats_total_tasks (bs_self s) + length ts \<and>
      config_of (bs_self s') = config_of (bs_self s)"
proof (induction evs s arbitrary: dts rule: run_events.induct)
  case (1 s)
  from "1.prems"(1) have e: "bs_queue s = []" "bs_done s = []" "res = Inr s"
    by (auto split: if_splits)
  with "1.prems"(2) have "dts = []" by simp
  with e show ?case by simp
next
  case (2 evs s)
  from "2.prems"(1) obtain t q where q: "bs_queue s = t # q"
    by (cases "bs_queue s") auto
  obtain r self' where x: "execute_task (bs_self s) (bs_current_time s) t = (r, self')"
    by (cases "execute_task (bs_self s) (bs_current_time s) t") auto
  let ?s1 = "s\<lparr>bs_self := self', bs_queue := q, bs_done := bs_done s @ [r]\<rparr>"
  have run: "run_events evs ?s1 = Some res"
    using "2.prems"(1) q x by simp
  have cfg: "config_of self' = config_of (bs_self s)"
    using execute_task_config[of "bs_self s" "bs_current_time s" t] x by simp
  have st: "stats_total_tasks self' = stats_total_tasks (bs_self s)"
    using execute_task_stats[of "bs_self s" "bs_current_time s" t] x by simp
  have ex: "exec_of cs t r"
    using execute_task_exec_of[of "bs_self s" t "bs_current_time s"] x "2.prems"(3) by simp
  have l2: "list_all2 (exec_of cs) (dts @ [t]) (bs_done ?s1)"
    using "2.prems"(2) ex by (simp add: list_all2_appendI)
  have cold: "cold_start_ms (bs_self ?s1) = cs"
    using config_of_cold[OF cfg] "2.prems"(3) by simp
  from "2.IH"[OF q x[symmetric] run l2 cold]
  obtain s' ts new where r: "res = Inr s'" "mset ts = mset (dts @ [t]) + mset (bs_queue ?s1)"
      "bs_csv s' = bs_csv ?s1 @ new" "list_all2 (row_for cs) ts new"
      "stats_total_tasks (bs_self s') = stats_total_tasks (bs_self ?s1) + length ts"
      "config_of (bs_self s') = config_of (bs_self ?s1)"
    by blast
  have "mset ts = mset dts + mset (bs_queue s)" using r(2) q by simp
  moreover have "bs_csv s' = bs_csv s @ new" using r(3) by simp
  moreover have "stats_total_tasks (bs_self s') = stats_total_tasks (bs_self s) + length ts"
    using r(5) st by simp
  moreover have "config_of (bs_self s') = config_of (bs_self s)" using r(6) cfg by simp
  ultimately show ?case using r(1) r(4) by blast
next
  case (3 i now evs s)
  from "3.prems"(1) have i: "i < length (bs_done s)"
    by (auto split: if_splits)
  have len: "length dts = length (bs_done s)"
    using "3.prems"(2) by (rule list_all2_lengthD)
  have exi: "exec_of cs (dts ! i) (bs_done s ! i)"
    using "3.prems"(2) i by (simp add: list_all2_nthD2)
  then obtain t' e c where d: "bs_done s ! i = Inr (t', e, c)"
      and row: "row_for cs (dts ! i) (last (write_result now (bs_csv s) t'))"
    unfolding exec_of_def by blast
  let ?s0 = "s\<lparr>bs_done := take i (bs_done s) @ drop (Suc i) (bs_done s)\<rparr>"
  let ?s1 = "collect now ?s0 (t', e, c)"
  have run: "run_events evs ?s1 = Some res"
    using "3.prems"(1) i d by simp
  have l2: "list_all2 (exec_of cs) (take i dts @ drop (Suc i) dts) (bs_done ?s1)"
    using "3.prems"(2)
    by (simp add: collect_fields list_all2_appendI)
  have cfg: "config_of (bs_self ?s1) = config_of (bs_self s)"
    by (simp add: collect_fields)
  have cold: "cold_start_ms (bs_self ?s1) = cs"
    using config_of_cold[OF cfg] "3.prems"(3) by simp
  from "3.IH"[OF i d run l2 cold]
  obtain s' ts new where r: "res = Inr s'"
      "mset ts = mset (take i dts @ drop (Suc i) dts) + mset (bs_queue ?s1)"
      "bs_csv s' = bs_csv ?s1 @ new" "list_all2 (row_for cs) ts new"
      "stats_total_tasks (bs_self s') = stats_total_tasks (bs_self ?s1) + length ts"
      "config_of (bs_self s') = config_of (bs_self ?s1)"
    by blast
  let ?row = "last (write_result now (bs_csv s) t')"
  have csv1: "bs_csv ?s1 = bs_csv s @ [?row]"
    using write_result_snoc[of now "bs_csv s" t'] by (simp add: collect_fields)
  have "mset (dts ! i # ts) = mset dts + mset (bs_queue s)"
    using r(2) mset_remove_nth[of i dts] i len by (simp add: collect_fields)
  moreover have "bs_csv s' = bs_csv s @ (?row # new)" using r(3) csv1 by simp
  moreover have "list_all2 (row_for cs) (dts ! i # ts) (?row # new)" using r(4) row by simp
  moreover have "stats_total_tasks (bs_self s') = stats_total_tasks (bs_self s) + length (dts ! i # ts)"
    using r(5) by (simp add: collect_fields)
  moreover have "config_of (bs_self s') = config_of (bs_self s)" using r(6) cfg by simp
  ultimately show ?case using r(1) by blast
qed

lemma simulate_batch_rows:
  assumes "simulate_batch evs self tasks ct rows = Some res" and "0 < concurrency self"
  shows "\<exists>ct' self' ts new. res = Inr (ct', self', rows @ new) \<and> mset ts = mset tasks \<and>
      list_all2 (row_for (cold_start_ms self)) ts new \<and>
      stats_total_tasks self' = stats_total_tasks self + length ts \<and>
      config_of self' = config_of self"
proof -
  let ?s0 = "\<lparr>bs_self = self, bs_current_time = ct, bs_queue = sort_key o_arrival_time tasks,
       bs_done = [], bs_csv = rows\<rparr>"
  from assms obtain r where run: "run_events evs ?s0 = Some r"
    by (auto simp: simulate_batch_def Let_def split: option.splits)
  from run_events_rows[OF run, of "cold_start_ms self" "[]"]
  obtain s' ts new where r: "r = Inr s'" "mset ts = mset (sort_key o_arrival_time tasks)"
      "bs_csv s' = rows @ new" "list_all2 (row_for (cold_start_ms self)) ts new"
      "stats_total_tasks (bs_self s') = stats_total_tasks self + length ts"
      "config_of (bs_self s') = config_of self"
    by auto
  have "res = Inr (bs_current_time s', bs_self s', bs_csv s')"
    using assms run r(1) by (simp add: simulate_batch_def Let_def)
  with r show ?thesis by auto
qed

subsection \<open>The batches cover the workload\<close>

lemma chunk_take:
  "0 < b \<Longrightarrow> chunk (int b) wl (j * b) = take b (drop (j * b) wl)"
  by (simp add: chunk_def min_def)

lemma chunks_prefix:
  "0 < b \<Longrightarrow> concat (map (chunk (int b) wl) (map (\<lambda>j. j * b) [0..<k])) = take (k * b) wl"
proof (induction k)
  case 0
  show ?case by simp
next
  case (Suc k)
  have "take (k * b) wl @ take b (drop (k * b) wl) = take (k * b + b) wl"
    by (simp add: take_add)
  with Suc show ?case by (simp add: chunk_take add.commute)
qed

lemma ceil_div_covers: "0 < (b::nat) \<Longrightarrow> n \<le> ((n + b - 1) div b) * b"
proof -
  assume b: "0 < b"
  have "n + b - 1 < ((n + b - 1) div b) * b + b"
    using b by (metis div_mult_mod_eq mod_less_divisor nat_add_left_cancel_less)
  then show ?thesis by linarith
qed

lemma chunks_cover:
  "0 < bs \<Longrightarrow> concat (map (chunk bs wl) (range0 (length wl) bs)) = wl"
proof -
  assume bs: "0 < bs"
  then have b: "0 < nat bs" and i: "int (nat bs) = bs" by simp_all
  have "concat (map (chunk bs wl) (range0 (length wl) bs))
      = take (((length wl + nat bs - 1) div nat bs) * nat bs) wl"
    using chunks_prefix[OF b, of wl "(length wl + nat bs - 1) div nat bs"] bs i
    by (simp add: range0_def)
  also have "\<dots> = wl" using ceil_div_covers[OF b, of "length wl"] by simp
  finally show ?thesis .
qed

lemma batch_loop_rows:
  "batch_loop bs idx evss self ct rows = Some res \<Longrightarrow> 0 < concurrency self \<Longrightarrow>
   \<exists>ct' self' ts new. res = Inr (ct', self', rows @ new) \<and>
      mset ts = mset (map OptimizedTask (concat (map (chunk bs (workload self)) idx))) \<and>
      list_all2 (row_for (cold_start_ms self)) ts new \<and>
      stats_total_tasks self' = stats_total_tasks self + length ts \<and>
      config_of self' = config_of self"
proof (induction idx arbitrary: evss self ct rows)
  case Nil
  then show ?case by (cases evss) auto
next
  case (Cons i "is")
  from Cons.prems(1) obtain evs evss' where ev: "evss = evs # evss'"
    by (cases evss) auto
  note prems = Cons.prems(1)[unfolded ev] Cons.prems(2)
  let ?batch = "map OptimizedTask (chunk bs (workload self) i)"
  from prems(1) obtain r1 where sb: "simulate_batch evs self ?batch ct rows = Some r1"
    by (auto simp: Let_def chunk_def split: option.splits)
  from simulate_batch_rows[OF sb prems(2)]
  obtain ct1 self1 ts1 new1 where r1: "r1 = Inr (ct1, self1, rows @ new1)" "mset ts1 = mset ?batch"
      "list_all2 (row_for (cold_start_ms self)) ts1 new1"
      "stats_total_tasks self1 = stats_total_tasks self + length ts1"
      "config_of self1 = config_of self"
    by blast
  have run: "batch_loop bs is evss' self1 ct1 (rows @ new1) = Some res"
    using prems(1) sb r1(1) by (simp add: Let_def chunk_def)
  have conc: "0 < concurrency self1"
    using config_of_fields[OF r1(5)] prems(2) by simp
  from Cons.IH[OF run conc]
  obtain ct' self' ts new where r: "res = Inr (ct', self', (rows @ new1) @ new)"
      "mset ts = mset (map OptimizedTask (concat (map (chunk bs (workload self1)) is)))"
      "list_all2 (row_for (cold_start_ms self1)) ts new"
      "stats_total_tasks self' = stats_total_tasks self1 + length ts"
      "config_of self' = config_of self1"
    by blast
  have w: "workload self1 = workload self" using config_of_fields[OF r1(5)] by simp
  have c: "cold_start_ms self1 = cold_start_ms self" using config_of_cold[OF r1(5)] by simp
  have "res = Inr (ct', self', rows @ (new1 @ new))" using r(1) by simp
  moreover have "mset (ts1 @ ts) = mset (map OptimizedTask (concat (map (chunk bs (workload self)) (i # is))))"
    using r(2) r1(2) w by simp
  moreover have "list_all2 (row_for (cold_start_ms self)) (ts1 @ ts) (new1 @ new)"
    using r(3) r1(3) c by (simp add: list_all2_appendI)
  moreover have "stats_total_tasks self' = stats_total_tasks self + length (ts1 @ ts)"
    using r(4) r1(4) by simp
  moreover have "config_of self' = config_of self" using r(5) r1(5) by simp
  ultimately show ?case by blast
qed

subsection \<open>The whole run\<close>

lemma start_simulator_fields:
  "concurrency (fst (start_simulator a wl)) = a_concurrency a"
  "cold_start_ms (fst (start_simulator a wl)) = a_cold_start_ms a / 1000"
  "stats_total_tasks (fst (start_simulator a wl)) = 0"
  by (simp_all add: start_simulator_def init_simulator_def Let_def)

lemma start_simulator_subset: "set (workload (fst (start_simulator a wl))) \<subseteq> set wl"
  by (auto simp: start_simulator_def init_simulator_def Let_def slice_to_def
      split: option.splits dest: in_set_takeD)

lemma start_simulator_limited:
  assumes "a_max_tasks a = Some k" and "1 \<le> k" and "k < int (length wl)"
  shows "workload (fst (start_simulator a wl)) = take (nat k) wl"
    and "snd (start_simulator a wl) = [Limiting k (length wl)]"
  using assms by (simp_all add: start_simulator_def init_simulator_def Let_def slice_to_def)

lemma start_simulator_unlimited:
  "a_max_tasks a = None \<Longrightarrow> workload (fst (start_simulator a wl)) = wl"
  by (simp add: start_simulator_def init_simulator_def Let_def)

lemma OptimizedTask_fields:
  "o_id (OptimizedTask td) = td_id td"
  "o_arrival_time (OptimizedTask td) = td_arrival_time td"
  "o_deadline (OptimizedTask td) = td_deadline td"
  "o_payload (OptimizedTask td) = get_payload td"
  by (simp_all add: OptimizedTask_def)

lemma main_unfold:
  "main a (Some wl) env evss =
     (case simulate env evss (fst (start_simulator a wl)) (a_batch_size a) of
        None \<Rightarrow> None
      | Some (Inl e) \<Rightarrow> Some \<lparr>exit_code = 1, printed = snd (start_simulator a wl), final = None\<rparr>
      | Some (Inr results) \<Rightarrow> Some \<lparr>exit_code = 0, printed = snd (start_simulator a wl), final = results\<rparr>)"
  unfolding main_def start_simulator_def
  by (cases "init_simulator wl (a_max_tasks a) (a_concurrency a) (a_cold_start_ms a)
        (a_container_reuse a) (a_reuse_ttl a) (a_enable_cost_model a)")
    (simp split: option.splits sum.splits)

lemma validate_nonempty: "validate_workload env self = Inr True \<Longrightarrow> workload self \<noteq> []"
  by (auto simp: validate_workload_def Let_def split: if_splits)

lemma validate_ok:
  "workload self \<noteq> [] \<Longrightarrow>
   length (workload self) \<le> 100000 \<or> \<not> stdin_isatty env \<or> user_response env = Some ''y''
     \<or> user_response env = Some ''Y'' \<Longrightarrow>
   validate_workload env self = Inr True"
  by (auto simp: validate_workload_def Let_def)

lemma validate_not_tty:
  "\<not> stdin_isatty env \<Longrightarrow> validate_workload env self = Inr (workload self \<noteq> [])"
  by (simp add: validate_workload_def Let_def)

lemma range0_nonempty: "0 < n \<Longrightarrow> 0 < bs \<Longrightarrow> range0 n bs \<noteq> []"
proof -
  assume n: "0 < n" and bs: "0 < bs"
  then have "nat bs \<le> n + nat bs - 1" by simp
  then have "1 \<le> (n + nat bs - 1) div nat bs"
    using bs by (simp add: div_greater_zero_iff Suc_le_eq)
  then show ?thesis using bs by (simp add: range0_def)
qed

lemma batch_loop_no_pool:
  "concurrency self \<le> 0 \<Longrightarrow> batch_loop bs (i # idx) evss self ct rows \<noteq> Some (Inr r)"
  by (cases evss) (auto simp: simulate_batch_def Let_def)

lemma rows_static: "list_all2 (row_for cs) ts rows \<Longrightarrow> map static_cols rows = map task_static ts"
  by (induction ts rows rule: list_all2_induct) (simp_all add: row_for_def)

lemma rows_member:
  "list_all2 (row_for cs) ts rows \<Longrightarrow> r \<in> set rows \<Longrightarrow> \<exists>t \<in> set ts. row_for cs t r"
  by (induction ts rows rule: list_all2_induct) auto

lemma rows_ids:
  assumes "list_all2 (row_for cs) ts rows" and "mset ts = mset (map OptimizedTask wl)"
  shows "mset (map TaskID rows) = mset (map td_id wl)"
proof -
  have "map TaskID rows = map o_id ts"
    using assms(1) by (induction ts rows rule: list_all2_induct)
      (simp_all add: row_for_def static_cols_def task_static_def)
  then have "mset (map TaskID rows) = image_mset o_id (mset ts)" by simp
  also have "\<dots> = image_mset o_id (mset (map OptimizedTask wl))" using assms(2) by simp
  also have "\<dots> = mset (map td_id wl)"
    by (simp add: OptimizedTask_fields multiset.map_comp comp_def)
  finally show ?thesis .
qed

lemma simulate_final:
  assumes "simulate env evss self bs = Some (Inr (Some (self', rows)))"
  shows "\<exists>ts. mset ts = mset (map OptimizedTask (if 0 < bs then workload self else [])) \<and>
      list_all2 (row_for (cold_start_ms self)) ts rows \<and>
      stats_total_tasks self' = stats_total_tasks self + length ts"
proof -
  from assms have v: "validate_workload env self = Inr True" and nz: "bs \<noteq> 0"
    by (auto simp: simulate_def split: sum.splits if_splits)
  from assms v nz obtain ct where
    bl: "batch_loop bs (range0 (length (workload self)) bs) evss self 0 [] = Some (Inr (ct, self', rows))"
    by (auto simp: simulate_def split: option.splits sum.splits)
  show ?thesis
  proof (cases "0 < bs")
    case False
    then have "range0 (length (workload self)) bs = []" by (simp add: range0_def)
    with bl have "self' = self \<and> rows = []" by (cases evss) auto
    with False show ?thesis by simp
  next
    case True
    from validate_nonempty[OF v] True obtain i idx where
      idx: "range0 (length (workload self)) bs = i # idx"
      using range0_nonempty[of "length (workload self)" bs] by (cases "range0 (length (workload self)) bs") auto
    have conc: "0 < concurrency self"
      using batch_loop_no_pool[of self bs i idx evss 0 "[]" "(ct, self', rows)"] bl idx
      by (cases "0 < concurrency self") auto
    from batch_loop_rows[OF bl conc] chunks_cover[OF True, of "workload self"] True
    show ?thesis by auto
  qed
qed

lemma main_final:
  assumes "main a (Some wl) env evss = Some out" and "final out = Some (self', rows)"
  shows "\<exists>ts. mset ts = mset (map OptimizedTask
            (if 0 < a_batch_size a then workload (fst (start_simulator a wl)) else [])) \<and>
      list_all2 (row_for (a_cold_start_ms a / 1000)) ts rows \<and>
      stats_total_tasks self' = length ts"
proof -
  from assms have "simulate env evss (fst (start_simulator a wl)) (a_batch_size a) = Some (Inr (Some (self', rows)))"
    by (auto simp: main_unfold split: option.splits sum.splits)
  from simulate_final[OF this] show ?thesis
    by (simp add: start_simulator_fields)
qed

lemma simulate_success:
  assumes "simulate env evss self bs = Some res" and "0 < concurrency self" and "0 < bs"
    and "validate_workload env self = Inr True"
  shows "\<exists>self' rows. res = Inr (Some (self', rows))"
proof -
  from assms obtain r where
    bl: "batch_loop bs (range0 (length (workload self)) bs) evss self 0 [] = Some r"
    by (auto simp: simulate_def split: option.splits)
  from batch_loop_rows[OF bl assms(2)] obtain ct self' rows where "r = Inr (ct, self', rows)"
    by auto
  with assms bl show ?thesis by (auto simp: simulate_def)
qed

lemma main_success:
  assumes "main a (Some wl) env evss = Some out" and "0 < a_concurrency a" and "0 < a_batch_size a"
    and "validate_workload env (fst (start_simulator a wl)) = Inr True"
  shows "exit_code out = 0 \<and> printed out = snd (start_simulator a wl) \<and>
     (\<exists>self' rows. final out = Some (self', rows))"
proof -
  from assms(1) obtain res where
    s: "simulate env evss (fst (start_simulator a wl)) (a_batch_size a) = Some res"
    by (auto simp: main_unfold split: option.splits)
  from simulate_success[OF s _ assms(3) assms(4)] assms(2)
  obtain self' rows where "res = Inr (Some (self', rows))"
    by (auto simp: start_simulator_fields)
  with assms(1) s show ?thesis by (auto simp: main_unfold)
qed

subsection \<open>Every run has an interleaving\<close>

text \<open>
  The statements about runs below speak of every list of events that is an execution.
  There always is one: each task is run and collected before the next one is run.
\<close>

lemma sequential_events_Suc:
  "sequential_events (Suc n) now = Run # Yield 0 now # sequential_events n now"
  by (simp add: sequential_events_def)

lemma run_events_sequential:
  "bs_done s = [] \<Longrightarrow> length (bs_queue s) = n \<Longrightarrow>
   \<exists>res. run_events (sequential_events n now) s = Some res"
proof (induction n arbitrary: s)
  case 0
  then show ?case by (simp add: sequential_events_def)
next
  case (Suc n)
  then obtain t q where q: "bs_queue s = t # q" by (cases "bs_queue s") auto
  obtain r self' where x: "execute_task (bs_self s) (bs_current_time s) t = (r, self')"
    by (cases "execute_task (bs_self s) (bs_current_time s) t") auto
  have "exec_of (cold_start_ms (bs_self s)) t r"
    using execute_task_exec_of[of "bs_self s" t "bs_current_time s"] x by simp
  then obtain t' e c where r: "r = Inr (t', e, c)" unfolding exec_of_def by blast
  let ?s1 = "s\<lparr>bs_self := self', bs_queue := q, bs_done := bs_done s @ [r]\<rparr>"
  let ?s2 = "collect now (?s1\<lparr>bs_done := []\<rparr>) (t', e, c)"
  have step: "run_events (sequential_events (Suc n) now) s = run_events (sequential_events n now) ?s2"
    using q x r Suc.prems(1) by (simp add: sequential_events_Suc)
  have "bs_done ?s2 = []" "length (bs_queue ?s2) = n"
    using Suc.prems(2) q by (simp_all add: collect_fields)
  from Suc.IH[OF this] step show ?case by simp
qed

lemma simulate_batch_has_execution:
  "\<exists>evs res. simulate_batch evs self tasks ct rows = Some res"
proof (cases "concurrency self \<le> 0")
  case True
  then show ?thesis by (simp add: simulate_batch_def)
next
  case False
  let ?s0 = "\<lparr>bs_self = self, bs_current_time = ct, bs_queue = sort_key o_arrival_time tasks,
       bs_done = [], bs_csv = rows\<rparr>"
  from run_events_sequential[of ?s0 "length tasks" "''now''"]
  obtain r where "run_events (sequential_events (length tasks) ''now'') ?s0 = Some r" by auto
  then have "\<exists>res. simulate_batch (sequential_events (length tasks) ''now'') self tasks ct rows = Some res"
    using False by (cases r) (simp_all add: simulate_batch_def)
  then show ?thesis by blast
qed

lemma batch_loop_has_execution:
  "\<exists>evss res. batch_loop bs idx evss self ct rows = Some res"
proof (induction idx arbitrary: self ct rows)
  case Nil
  have "batch_loop bs [] [] self ct rows = Some (Inr (ct, self, rows))" by simp
  then show ?case by blast
next
  case (Cons i idx)
  let ?batch = "map OptimizedTask (chunk bs (workload self) i)"
  from simulate_batch_has_execution[of self ?batch ct rows]
  obtain evs r1 where sb: "simulate_batch evs self ?batch ct rows = Some r1" by blast
  show ?case
  proof (cases r1)
    case (Inl e)
    with sb have "batch_loop bs (i # idx) [evs] self ct rows = Some (Inl e)"
      by (simp add: Let_def chunk_def)
    then show ?thesis by blast
  next
    case (Inr x)
    obtain ct1 self1 rows1 where x: "x = (ct1, self1, rows1)" by (cases x)
    from Cons.IH[of self1 ct1 rows1] obtain evss res where
      "batch_loop bs idx evss self1 ct1 rows1 = Some res" by blast
    with sb Inr x have "batch_loop bs (i # idx) (evs # evss) self ct rows = Some res"
      by (simp add: Let_def chunk_def)
    then show ?thesis by blast
  qed
qed

lemma simulate_has_execution: "\<exists>evss res. simulate env evss self bs = Some res"
proof -
  from batch_loop_has_execution[of bs "range0 (length (workload self)) bs" self 0 "[]"]
  obtain evss r where "batch_loop bs (range0 (length (workload self)) bs) evss self 0 [] = Some r"
    by blast
  then have "\<exists>res. simulate env evss self bs = Some res"
    by (auto simp: simulate_def split: sum.splits option.splits)
  then show ?thesis by blast
qed

lemma main_has_execution: "\<exists>evss out. main a cfg env evss = Some out"
proof (cases cfg)
  case None
  then show ?thesis by (simp add: main_def)
next
  case (Some wl)
  from simulate_has_execution[of env "fst (start_simulator a wl)" "a_batch_size a"]
  obtain evss res where "simulate env evss (fst (start_simulator a wl)) (a_batch_size a) = Some res"
    by blast
  then have "\<exists>out. main a (Some wl) env evss = Some out"
    by (auto simp: main_unfold split: sum.splits)
  with Some show ?thesis by blast
qed

section \<open>Determinism\<close>

text \<open>
  Claim C2, as stated, at the two tasks above under the default configuration. When
  each task is collected before the next one runs, the second task starts at 5.2,
  ends at 10.2 and misses its deadline; when the worker runs both before the first is
  collected, the wall clock reading the same, the second task starts at 0.1 and is on
  time: the rows and the counter of missed tasks differ between the runs. And with
  the interleaving unchanged, other wall-clock readings give other rows.
\<close>

theorem reruns_differ:
  "map_option (\<lambda>out. map_option (\<lambda>(s, rows). (stats_missed_tasks s,
         map (\<lambda>r. (Timestamp r, DeadlineStatus r)) rows)) (final out))
     (main default_args (Some two_tasks) quiet_env one_after_another)
     = Some (Some (1, [(''n1'', Some ''on-time''), (''n2'', Some ''missed'')])) \<and>
   map_option (\<lambda>out. map_option (\<lambda>(s, rows). (stats_missed_tasks s,
         map (\<lambda>r. (Timestamp r, DeadlineStatus r)) rows)) (final out))
     (main default_args (Some two_tasks) quiet_env both_before_collecting)
     = Some (Some (0, [(''n1'', Some ''on-time''), (''n2'', Some ''on-time'')])) \<and>
   map_option (\<lambda>out. map_option (\<lambda>(s, rows). (stats_missed_tasks s,
         map (\<lambda>r. (Timestamp r, DeadlineStatus r)) rows)) (final out))
     (main default_args (Some two_tasks) quiet_env [[Run, Yield 0 ''n3'', Run, Yield 0 ''n4'']])
     = Some (Some (1, [(''n3'', Some ''on-time''), (''n4'', Some ''missed'')]))"
  by (simp add: run_defs two_tasks_def one_after_another_def both_before_collecting_def)

text \<open>
  Claim C2, amended. Two runs on the same workload and configuration, under any
  interleavings and any wall-clock readings, emit the same number of rows and count
  the same \<^verbatim>\<open>total_tasks\<close>, and their rows agree as multisets in the columns
  TaskName, TaskID, TriggerType, EnqueueTime, ExecDuration and Deadline.
\<close>

theorem reruns_agree_on_static_columns:
  assumes "main a cfg env1 evss1 = Some out1" and "main a cfg env2 evss2 = Some out2"
    and "final out1 = Some (s1, rows1)" and "final out2 = Some (s2, rows2)"
  shows "mset (map static_cols rows1) = mset (map static_cols rows2) \<and>
     stats_total_tasks s1 = stats_total_tasks s2 \<and> length rows1 = length rows2"
proof -
  from assms(1,3) obtain wl where cfg: "cfg = Some wl"
    by (cases cfg) (auto simp: main_def)
  let ?cs = "a_cold_start_ms a / 1000"
  from main_final[OF assms(1)[unfolded cfg] assms(3)] obtain ts1 where
    t1: "mset ts1 = mset (map OptimizedTask (if 0 < a_batch_size a then workload (fst (start_simulator a wl)) else []))"
      "list_all2 (row_for ?cs) ts1 rows1" "stats_total_tasks s1 = length ts1"
    by blast
  from main_final[OF assms(2)[unfolded cfg] assms(4)] obtain ts2 where
    t2: "mset ts2 = mset (map OptimizedTask (if 0 < a_batch_size a then workload (fst (start_simulator a wl)) else []))"
      "list_all2 (row_for ?cs) ts2 rows2" "stats_total_tasks s2 = length ts2"
    by blast
  have m: "mset ts1 = mset ts2" using t1(1) t2(1) by simp
  then have l: "length ts1 = length ts2" by (rule mset_eq_length)
  have "mset (map static_cols rows1) = image_mset task_static (mset ts1)"
    using rows_static[OF t1(2)] by simp
  moreover have "mset (map static_cols rows2) = image_mset task_static (mset ts2)"
    using rows_static[OF t2(2)] by simp
  ultimately have "mset (map static_cols rows1) = mset (map static_cols rows2)"
    using m by simp
  moreover have "length rows1 = length rows2"
    using list_all2_lengthD[OF t1(2)] list_all2_lengthD[OF t2(2)] l by simp
  ultimately show ?thesis using t1(3) t2(3) l by simp
qed

theorem reruns_agree_on_static_columns_witness:
  "\<exists>out1 out2 s1 rows1 s2 rows2.
     main default_args (Some two_tasks) quiet_env one_after_another = Some out1 \<and>
     main default_args (Some two_tasks) quiet_env both_before_collecting = Some out2 \<and>
     final out1 = Some (s1, rows1) \<and> final out2 = Some (s2, rows2) \<and>
     mset (map static_cols rows1) = mset (map static_cols rows2) \<and>
     stats_total_tasks s1 = stats_total_tasks s2 \<and> length rows1 = length rows2"
proof -
  have "\<exists>out s rows. main default_args (Some two_tasks) quiet_env one_after_another = Some out \<and>
      final out = Some (s, rows)"
    by (simp add: run_defs two_tasks_def one_after_another_def)
  then obtain out1 s1 rows1 where
    r1: "main default_args (Some two_tasks) quiet_env one_after_another = Some out1"
      "final out1 = Some (s1, rows1)"
    by blast
  have "\<exists>out s rows. main default_args (Some two_tasks) quiet_env both_before_collecting = Some out \<and>
      final out = Some (s, rows)"
    by (simp add: run_defs two_tasks_def both_before_collecting_def)
  then obtain out2 s2 rows2 where
    r2: "main default_args (Some two_tasks) quiet_env both_before_collecting = Some out2"
      "final out2 = Some (s2, rows2)"
    by blast
  from reruns_agree_on_static_columns[OF r1(1) r2(1) r1(2) r2(2)] r1 r2
  show ?thesis by blast
qed

section \<open>Consistency of the emitted records\<close>

lemma cs_step_consistent:
  "list_all cs_consistent rs \<Longrightarrow> list_all cs_consistent (fst (snd (cs_step (c, rs, m) t)))"
  by (simp add: cs_step_def Let_def cs_consistent_def)

lemma cs_foldl_consistent:
  "list_all cs_consistent rs \<Longrightarrow>
   list_all cs_consistent (fst (snd (foldl cs_step (c, rs, m) ts)))"
proof (induction ts arbitrary: c rs m)
  case Nil
  then show ?case by simp
next
  case (Cons t ts)
  obtain c1 rs1 m1 where s: "cs_step (c, rs, m) t = (c1, rs1, m1)"
    by (cases "cs_step (c, rs, m) t") auto
  have "list_all cs_consistent rs1"
    using cs_step_consistent[OF Cons.prems, of c m t] s by simp
  from Cons.IH[OF this, of c1 m1] s show ?case by simp
qed

lemma cs_simulate_consistent: "t \<in> set (cs_simulate wl) \<Longrightarrow> cs_consistent t"
  using cs_foldl_consistent[of "[]" 0 cs_metrics0 "sort_key cs_arrival_time (map cs_Task wl)"]
  by (simp add: cs_simulate_def cs_run_def list_all_iff)

text \<open>
  Claim C6, as stated, at a cold start of \<open>-1000\<close> ms, which \<^verbatim>\<open>main\<close> accepts: a
  task that arrives at 5 is given start time 4.
\<close>

theorem negative_cold_start_starts_before_arrival:
  "map_option (\<lambda>out. map_option (\<lambda>(s, rows). map (\<lambda>r. (TaskID r, EnqueueTime r, StartTime r)) rows) (final out))
     (main (default_args\<lparr>a_cold_start_ms := - 1000\<rparr>)
        (Some [mk_task ''t1'' 5 100 1 ''f'' 256]) quiet_env [[Run, Yield 0 ''n1'']])
   = Some (Some [(''t1'', Some 5, Some 4)])"
  by (simp add: run_defs)

text \<open>
  Claim C6, amended. Every row that the batch engine emits belongs to a task of the
  workload and has \<open>EndTime = StartTime + ExecDuration\<close> and status "missed" exactly
  when \<open>EndTime > Deadline\<close>, otherwise "on-time"; its start time is not before the
  task's arrival time when the configured cold-start delay is not negative. Every
  result of the simulator of custom\_simulator.py has all three properties.
\<close>

theorem emitted_records_consistent:
  "(main a (Some wl) env evss = Some out \<longrightarrow> final out = Some (self', rows) \<longrightarrow> r \<in> set rows \<longrightarrow>
      (\<exists>td \<in> set wl. \<exists>s x. TaskID r = td_id td \<and> EnqueueTime r = Some (td_arrival_time td) \<and>
          Deadline r = td_deadline td \<and> StartTime r = Some s \<and> ExecDuration r = Some x \<and>
          (0 \<le> a_cold_start_ms a \<longrightarrow> td_arrival_time td \<le> s) \<and>
          EndTime r = Some (s + x) \<and>
          DeadlineStatus r = Some (if s + x > td_deadline td then ''missed'' else ''on-time''))) \<and>
   (t \<in> set (cs_simulate wl) \<longrightarrow>
      (\<exists>s x. cs_start_time t = Some s \<and> cs_execution_time t = Some x \<and>
          cs_arrival_time t \<le> s \<and> cs_end_time t = Some (s + x) \<and>
          cs_deadline_status t = Some (if s + x > cs_deadline t then ''missed'' else ''on-time'')))"
proof (intro conjI impI)
  assume m: "main a (Some wl) env evss = Some out" and f: "final out = Some (self', rows)"
    and r: "r \<in> set rows"
  from main_final[OF m f] obtain ts where
    ts: "mset ts = mset (map OptimizedTask
            (if 0 < a_batch_size a then workload (fst (start_simulator a wl)) else []))"
      "list_all2 (row_for (a_cold_start_ms a / 1000)) ts rows"
    by blast
  from rows_member[OF ts(2) r] obtain t where t: "t \<in> set ts" "row_for (a_cold_start_ms a / 1000) t r"
    by blast
  from t(1) ts(1) have "t \<in> set (map OptimizedTask
            (if 0 < a_batch_size a then workload (fst (start_simulator a wl)) else []))"
    by (metis set_mset_mset)
  then obtain td where td: "td \<in> set wl" "t = OptimizedTask td"
    using start_simulator_subset[of a wl] by (auto split: if_splits)
  let ?x = "est_runtime_or_1 (get_payload td)"
  from t(2) td(2) obtain s where s:
      "static_cols r = task_static (OptimizedTask td)" "StartTime r = Some s"
      "0 \<le> a_cold_start_ms a / 1000 \<longrightarrow> td_arrival_time td \<le> s"
      "EndTime r = Some (s + ?x)"
      "DeadlineStatus r = Some (if s + ?x > td_deadline td then ''missed'' else ''on-time'')"
    by (auto simp: row_for_def OptimizedTask_fields)
  have c: "(0 \<le> a_cold_start_ms a / 1000) = (0 \<le> a_cold_start_ms a)" by simp
  have "TaskID r = td_id td \<and> EnqueueTime r = Some (td_arrival_time td) \<and>
          Deadline r = td_deadline td \<and> StartTime r = Some s \<and> ExecDuration r = Some ?x \<and>
          (0 \<le> a_cold_start_ms a \<longrightarrow> td_arrival_time td \<le> s) \<and>
          EndTime r = Some (s + ?x) \<and>
          DeadlineStatus r = Some (if s + ?x > td_deadline td then ''missed'' else ''on-time'')"
    using s c by (simp add: static_cols_def task_static_def OptimizedTask_fields)
  with td(1) show "\<exists>td \<in> set wl. \<exists>s x. TaskID r = td_id td \<and> EnqueueTime r = Some (td_arrival_time td) \<and>
          Deadline r = td_deadline td \<and> StartTime r = Some s \<and> ExecDuration r = Some x \<and>
          (0 \<le> a_cold_start_ms a \<longrightarrow> td_arrival_time td \<le> s) \<and>
          EndTime r = Some (s + x) \<and>
          DeadlineStatus r = Some (if s + x > td_deadline td then ''missed'' else ''on-time'')"
    by blast
next
  assume "t \<in> set (cs_simulate wl)"
  from cs_simulate_consistent[OF this]
  show "\<exists>s x. cs_start_time t = Some s \<and> cs_execution_time t = Some x \<and>
          cs_arrival_time t \<le> s \<and> cs_end_time t = Some (s + x) \<and>
          cs_deadline_status t = Some (if s + x > cs_deadline t then ''missed'' else ''on-time'')"
    by (auto simp: cs_consistent_def)
qed

theorem emitted_records_consistent_witness:
  "\<exists>out self' rows r t.
     main default_args (Some two_tasks) quiet_env one_after_another = Some out \<and>
     final out = Some (self', rows) \<and> r \<in> set rows \<and> t \<in> set (cs_simulate two_tasks) \<and>
     0 \<le> a_cold_start_ms default_args \<and>
     (\<exists>td \<in> set two_tasks. \<exists>s x. TaskID r = td_id td \<and> EnqueueTime r = Some (td_arrival_time td) \<and>
          Deadline r = td_deadline td \<and> StartTime r = Some s \<and> ExecDuration r = Some x \<and>
          td_arrival_time td \<le> s \<and> EndTime r = Some (s + x) \<and>
          DeadlineStatus r = Some (if s + x > td_deadline td then ''missed'' else ''on-time'')) \<and>
     (\<exists>s x. cs_start_time t = Some s \<and> cs_execution_time t = Some x \<and>
          cs_arrival_time t \<le> s \<and> cs_end_time t = Some (s + x) \<and>
          cs_deadline_status t = Some (if s + x > cs_deadline t then ''missed'' else ''on-time''))"
proof -
  have "\<exists>out s rows. main default_args (Some two_tasks) quiet_env one_after_another = Some out \<and>
      final out = Some (s, rows) \<and> rows \<noteq> []"
    by (simp add: run_defs two_tasks_def one_after_another_def)
  then obtain out self' rows where
    m: "main default_args (Some two_tasks) quiet_env one_after_another = Some out"
      "final out = Some (self', rows)" "rows \<noteq> []"
    by blast
  have r: "hd rows \<in> set rows" using m(3) by simp
  have "cs_simulate two_tasks \<noteq> []"
    by (simp add: cs_simulate_def cs_run_def cs_step_def cs_Task_def two_tasks_def mk_task_def Let_def)
  then have t: "hd (cs_simulate two_tasks) \<in> set (cs_simulate two_tasks)" by simp
  have c: "0 \<le> a_cold_start_ms default_args" by (simp add: default_args_def)
  from emitted_records_consistent[of default_args two_tasks quiet_env one_after_another out
      self' rows "hd rows" "hd (cs_simulate two_tasks)"] m r t c
  show ?thesis by blast
qed

section \<open>Truncation by \<^verbatim>\<open>max_tasks\<close>\<close>

text \<open>
  Claim C8, as stated, at \<open>max_tasks = 0\<close> and a workload of one task: nothing is
  printed and the one task is processed, not zero tasks.
\<close>

theorem max_tasks_zero_is_no_limit:
  "map_option (\<lambda>out. (exit_code out, printed out,
       map_option (\<lambda>(s, rows). (stats_total_tasks s, map TaskID rows)) (final out)))
     (main (default_args\<lparr>a_max_tasks := Some 0\<rparr>)
        (Some [mk_task ''t1'' 0 100 1 ''f'' 256]) quiet_env [[Run, Yield 0 ''n1'']])
   = Some (0, [], Some (1, [''t1'']))"
  by (simp add: run_defs)

text \<open>
  Claim C8, amended. When \<open>max_tasks = k\<close> with \<open>k \<ge> 1\<close>, the workload has more
  than \<open>k\<close> tasks, batch size and concurrency are positive, and the run is not
  stopped at the confirmation prompt for more than 100000 tasks, then every run
  processes exactly the first \<open>k\<close> tasks of the workload, prints the limiting line
  once, naming \<open>k\<close> and the original number of tasks, and exits with code 0.
\<close>

theorem max_tasks_truncation:
  assumes "a_max_tasks a = Some k" and "1 \<le> k" and "k < int (length wl)"
    and "0 < a_batch_size a" and "0 < a_concurrency a"
    and "k \<le> 100000 \<or> \<not> stdin_isatty env \<or> user_response env = Some ''y''
           \<or> user_response env = Some ''Y''"
    and "main a (Some wl) env evss = Some out"
  shows "exit_code out = 0 \<and> printed out = [Limiting k (length wl)] \<and>
     (\<exists>s rows. final out = Some (s, rows) \<and> stats_total_tasks s = nat k \<and>
        length rows = nat k \<and> mset (map TaskID rows) = mset (map td_id (take (nat k) wl)))"
proof -
  note w = start_simulator_limited[OF assms(1,2,3)]
  have len: "length (take (nat k) wl) = nat k" using assms(2,3) by simp
  have v: "validate_workload env (fst (start_simulator a wl)) = Inr True"
  proof (rule validate_ok)
    show "workload (fst (start_simulator a wl)) \<noteq> []" using w(1) len assms(2) by auto
    show "length (workload (fst (start_simulator a wl))) \<le> 100000 \<or> \<not> stdin_isatty env \<or>
        user_response env = Some ''y'' \<or> user_response env = Some ''Y''"
      using assms(6) w(1) len by auto
  qed
  from main_success[OF assms(7) assms(5) assms(4) v] obtain s rows where
    ok: "exit_code out = 0" "printed out = snd (start_simulator a wl)" "final out = Some (s, rows)"
    by blast
  from main_final[OF assms(7) ok(3)] assms(4) w(1) obtain ts where
    ts: "mset ts = mset (map OptimizedTask (take (nat k) wl))"
      "list_all2 (row_for (a_cold_start_ms a / 1000)) ts rows" "stats_total_tasks s = length ts"
    by auto
  have lts: "length ts = nat k" using mset_eq_length[OF ts(1)] len by simp
  have "length rows = nat k" using list_all2_lengthD[OF ts(2)] lts by simp
  moreover have "mset (map TaskID rows) = mset (map td_id (take (nat k) wl))"
    by (rule rows_ids[OF ts(2) ts(1)])
  ultimately show ?thesis using ok w(2) ts(3) lts by simp
qed

theorem max_tasks_truncation_witness:
  "\<exists>out. main (default_args\<lparr>a_max_tasks := Some 1\<rparr>) (Some two_tasks) quiet_env [[Run, Yield 0 ''n1'']] = Some out \<and>
     exit_code out = 0 \<and> printed out = [Limiting 1 2] \<and>
     (\<exists>s rows. final out = Some (s, rows) \<and> stats_total_tasks s = 1 \<and> length rows = 1 \<and>
        mset (map TaskID rows) = {#''t1''#})"
proof -
  let ?a = "default_args\<lparr>a_max_tasks := Some 1\<rparr>"
  have "\<exists>out. main ?a (Some two_tasks) quiet_env [[Run, Yield 0 ''n1'']] = Some out"
    by (simp add: run_defs two_tasks_def)
  then obtain out where m: "main ?a (Some two_tasks) quiet_env [[Run, Yield 0 ''n1'']] = Some out"
    by blast
  have h: "a_max_tasks ?a = Some 1" "(1::int) \<le> 1" "1 < int (length two_tasks)"
      "0 < a_batch_size ?a" "0 < a_concurrency ?a"
      "(1::int) \<le> 100000 \<or> \<not> stdin_isatty quiet_env \<or> user_response quiet_env = Some ''y''
         \<or> user_response quiet_env = Some ''Y''"
    by (simp_all add: default_args_def two_tasks_def)
  from max_tasks_truncation[OF h m] m show ?thesis
    by (simp add: two_tasks_def mk_task_def)
qed

section \<open>Invalid configuration values\<close>

text \<open>
  Claim C9, as stated, at a time-to-live of \<open>-1\<close> and at a batch size of \<open>-5\<close>:
  the first run processes its task and emits its row, the second processes nothing,
  and both end with exit code 0; no error is raised.
\<close>

theorem invalid_configuration_is_not_rejected:
  "map_option (\<lambda>out. (exit_code out, map_option (\<lambda>(s, rows). (stats_total_tasks s, map TaskID rows)) (final out)))
     (main (default_args\<lparr>a_reuse_ttl := - 1\<rparr>)
        (Some [mk_task ''t1'' 0 100 1 ''f'' 256]) quiet_env [[Run, Yield 0 ''n1'']])
     = Some (0, Some (1, [''t1''])) \<and>
   map_option (\<lambda>out. (exit_code out, map_option (\<lambda>(s, rows). (stats_total_tasks s, map TaskID rows)) (final out)))
     (main (default_args\<lparr>a_batch_size := - 5\<rparr>)
        (Some [mk_task ''t1'' 0 100 1 ''f'' 256]) quiet_env [])
     = Some (0, Some (0, []))"
  by (simp add: run_defs)

text \<open>
  Claim C9, amended. The configuration is not validated. With a negative batch size
  and standard input not a terminal, the run processes no task, emits no row and
  exits with code 0. With a negative time-to-live, a positive batch size and
  concurrency, no task limit, a non-empty workload and standard input not a terminal,
  the run processes every task of the workload, emits a row for each and exits with
  code 0.
\<close>

theorem invalid_configuration_accepted:
  "(a_batch_size a < 0 \<longrightarrow> \<not> stdin_isatty env \<longrightarrow> main a (Some wl) env evss = Some out \<longrightarrow>
      exit_code out = 0 \<and>
      (final out = None \<or> (\<exists>s. final out = Some (s, []) \<and> stats_total_tasks s = 0))) \<and>
   (a_reuse_ttl a < 0 \<longrightarrow> 0 < a_batch_size a \<longrightarrow> 0 < a_concurrency a \<longrightarrow> a_max_tasks a = None \<longrightarrow>
      wl \<noteq> [] \<longrightarrow> \<not> stdin_isatty env \<longrightarrow> main a (Some wl) env evss = Some out \<longrightarrow>
      exit_code out = 0 \<and>
      (\<exists>s rows. final out = Some (s, rows) \<and> stats_total_tasks s = length wl \<and>
         length rows = length wl))"
proof (intro conjI impI)
  assume b: "a_batch_size a < 0" and tty: "\<not> stdin_isatty env"
    and m: "main a (Some wl) env evss = Some out"
  let ?sim = "fst (start_simulator a wl)"
  from m obtain res where s: "simulate env evss ?sim (a_batch_size a) = Some res"
    by (auto simp: main_unfold split: option.splits)
  have r0: "range0 (length (workload ?sim)) (a_batch_size a) = []"
    using b by (simp add: range0_def)
  have "res = Inr None \<or> res = Inr (Some (?sim, []))"
    using s b r0 validate_not_tty[OF tty, of ?sim]
    by (cases evss) (auto simp: simulate_def split: if_splits)
  with m s show "exit_code out = 0" by (auto simp: main_unfold)
  from \<open>res = Inr None \<or> res = Inr (Some (?sim, []))\<close> m s
  show "final out = None \<or> (\<exists>s. final out = Some (s, []) \<and> stats_total_tasks s = 0)"
    by (auto simp: main_unfold start_simulator_fields)
next
  assume h: "a_reuse_ttl a < 0" "0 < a_batch_size a" "0 < a_concurrency a" "a_max_tasks a = None"
    "wl \<noteq> []" "\<not> stdin_isatty env" "main a (Some wl) env evss = Some out"
  note w = start_simulator_unlimited[OF h(4), of wl]
  have v: "validate_workload env (fst (start_simulator a wl)) = Inr True"
    using validate_not_tty[OF h(6), of "fst (start_simulator a wl)"] w h(5) by simp
  from main_success[OF h(7) h(3) h(2) v] obtain s rows where
    ok: "exit_code out = 0" "final out = Some (s, rows)"
    by blast
  from main_final[OF h(7) ok(2)] h(2) w obtain ts where
    ts: "mset ts = mset (map OptimizedTask wl)"
      "list_all2 (row_for (a_cold_start_ms a / 1000)) ts rows" "stats_total_tasks s = length ts"
    by auto
  have "length ts = length wl" using mset_eq_length[OF ts(1)] by simp
  then have "stats_total_tasks s = length wl \<and> length rows = length wl"
    using ts(3) list_all2_lengthD[OF ts(2)] by simp
  with ok show "exit_code out = 0"
    and "\<exists>s rows. final out = Some (s, rows) \<and> stats_total_tasks s = length wl \<and> length rows = length wl"
    by auto
qed

theorem invalid_configuration_accepted_witness:
  "\<exists>out1 out2.
     main (default_args\<lparr>a_batch_size := - 5\<rparr>) (Some two_tasks) quiet_env [] = Some out1 \<and>
     exit_code out1 = 0 \<and>
     (final out1 = None \<or> (\<exists>s. final out1 = Some (s, []) \<and> stats_total_tasks s = 0)) \<and>
     main (default_args\<lparr>a_reuse_ttl := - 1\<rparr>) (Some two_tasks) quiet_env one_after_another = Some out2 \<and>
     exit_code out2 = 0 \<and>
     (\<exists>s rows. final out2 = Some (s, rows) \<and> stats_total_tasks s = 2 \<and> length rows = 2)"
proof -
  let ?a1 = "default_args\<lparr>a_batch_size := - 5\<rparr>"
  let ?a2 = "default_args\<lparr>a_reuse_ttl := - 1\<rparr>"
  have "\<exists>out. main ?a1 (Some two_tasks) quiet_env [] = Some out"
    by (simp add: run_defs two_tasks_def)
  then obtain out1 where m1: "main ?a1 (Some two_tasks) quiet_env [] = Some out1" by blast
  have "\<exists>out. main ?a2 (Some two_tasks) quiet_env one_after_another = Some out"
    by (simp add: run_defs two_tasks_def one_after_another_def)
  then obtain out2 where m2: "main ?a2 (Some two_tasks) quiet_env one_after_another = Some out2" by blast
  have h1: "a_batch_size ?a1 < 0" "\<not> stdin_isatty quiet_env"
    by (simp_all add: default_args_def quiet_env_def)
  have l: "length two_tasks = 2" by (simp add: two_tasks_def)
  have h2: "a_reuse_ttl ?a2 < 0" "0 < a_batch_size ?a2" "0 < a_concurrency ?a2"
      "a_max_tasks ?a2 = None" "two_tasks \<noteq> []"
    by (simp_all add: default_args_def two_tasks_def)
  from invalid_configuration_accepted[of ?a1 quiet_env two_tasks "[]" out1]
    invalid_configuration_accepted[of ?a2 quiet_env two_tasks one_after_another out2]
    m1 m2 h1 h2 l
  show ?thesis by auto
qed


section \<open>The priority queue pops in key order, ties in insertion order\<close>

subsection \<open>\<^verbatim>\<open>_siftdown\<close> and \<^verbatim>\<open>heappush\<close>\<close>

lemma parent_less: "0 < i \<Longrightarrow> (i - 1) div 2 < (i::nat)"
  by simp

lemma heap_except_done:
  assumes "heap_except g pos" and "0 < pos \<longrightarrow> entry_key (g ! ((pos - 1) div 2)) \<le> entry_key (g ! pos)"
  shows "is_heap g"
  unfolding is_heap_def
proof (intro allI impI)
  fix i assume i: "0 < i \<and> i < length g"
  show "entry_key (g ! ((i - 1) div 2)) \<le> entry_key (g ! i)"
  proof (cases "i = pos")
    case True
    with assms(2) i show ?thesis by simp
  next
    case False
    with assms(1) i show ?thesis by (simp add: heap_except_def)
  qed
qed

lemma heap_except_swap:
  assumes pos: "0 < pos" "pos < length heap"
    and ex: "heap_except (heap[pos := x]) pos"
    and lt: "entry_key x < entry_key (heap ! ((pos - 1) div 2))"
  shows "heap_except (heap[pos := heap ! ((pos - 1) div 2), (pos - 1) div 2 := x]) ((pos - 1) div 2)"
proof -
  let ?pp = "(pos - 1) div 2"
  let ?g = "heap[pos := x]"
  let ?g' = "heap[pos := heap ! ?pp, ?pp := x]"
  have pp: "?pp < pos" using pos(1) by simp
  have ppl: "?pp < length heap" using pp pos(2) by simp
  have gpp: "?g ! ?pp = heap ! ?pp" using pp by simp
  from ex have P: "\<forall>i. 0 < i \<and> i < length ?g \<and> i \<noteq> pos \<longrightarrow>
      entry_key (?g ! ((i - 1) div 2)) \<le> entry_key (?g ! i)"
    unfolding heap_except_def by (rule conjunct1)
  have pairs: "\<And>i. 0 < i \<Longrightarrow> i < length heap \<Longrightarrow> i \<noteq> pos \<Longrightarrow>
      entry_key (?g ! ((i - 1) div 2)) \<le> entry_key (?g ! i)"
    using P by simp
  from ex have G: "\<forall>c. 0 < pos \<and> 0 < c \<and> c < length ?g \<and> (c - 1) div 2 = pos \<longrightarrow>
      entry_key (?g ! ?pp) \<le> entry_key (?g ! c)"
    unfolding heap_except_def by (rule conjunct2)
  have lg: "length ?g = length heap" by simp
  have grand: "\<And>c. 0 < c \<Longrightarrow> c < length heap \<Longrightarrow> (c - 1) div 2 = pos \<Longrightarrow>
      entry_key (?g ! ?pp) \<le> entry_key (?g ! c)"
    using G pos(1) lg by metis
  show ?thesis
    unfolding heap_except_def
  proof (intro conjI allI impI)
    fix i assume i: "0 < i \<and> i < length ?g' \<and> i \<noteq> ?pp"
    then have il: "i < length heap" by simp
    show "entry_key (?g' ! ((i - 1) div 2)) \<le> entry_key (?g' ! i)"
    proof (cases "i = pos")
      case True
      then show ?thesis using pos pp ppl lt by simp
    next
      case ne: False
      have gi: "?g' ! i = heap ! i" using i ne by simp
      have gi': "?g ! i = heap ! i" using ne by simp
      show ?thesis
      proof (cases "(i - 1) div 2 = pos")
        case True
        have "entry_key (?g ! ?pp) \<le> entry_key (?g ! i)" using grand[of i] i il True by blast
        then have "entry_key (heap ! ?pp) \<le> entry_key (heap ! i)" using gpp gi' by simp
        moreover have "?g' ! ((i - 1) div 2) = heap ! ?pp" using True pos pp by simp
        ultimately show ?thesis using gi by simp
      next
        case np: False
        show ?thesis
        proof (cases "(i - 1) div 2 = ?pp")
          case True
          have "entry_key (?g ! ?pp) \<le> entry_key (?g ! i)"
            using pairs[of i] i il ne True by simp
          then have "entry_key x \<le> entry_key (heap ! i)" using lt gpp gi' by simp
          then show ?thesis using True gi ppl by simp
        next
          case False
          have "entry_key (?g ! ((i - 1) div 2)) \<le> entry_key (?g ! i)"
            using pairs[of i] i il ne by simp
          then show ?thesis using False np gi gi' by simp
        qed
      qed
    qed
  next
    fix c assume c: "0 < ?pp \<and> 0 < c \<and> c < length ?g' \<and> (c - 1) div 2 = ?pp"
    then have cl: "c < length heap" by simp
    let ?gp = "(?pp - 1) div 2"
    from c have pp0: "0 < ?pp" by blast
    have gp: "?gp < ?pp" by (rule parent_less[OF pp0])
    have up: "entry_key (?g ! ?gp) \<le> entry_key (?g ! ?pp)"
      using pairs[of ?pp] c ppl pp by simp
    have g'gp: "?g' ! ?gp = heap ! ?gp" using gp pp by simp
    have ggp: "?g ! ?gp = heap ! ?gp" using gp pp by simp
    show "entry_key (?g' ! ?gp) \<le> entry_key (?g' ! c)"
    proof (cases "c = pos")
      case True
      then show ?thesis using up g'gp ggp gpp pos pp by simp
    next
      case False
      have cpp: "c \<noteq> ?pp" using c by (metis parent_less less_irrefl)
      have "entry_key (?g ! ?pp) \<le> entry_key (?g ! c)"
        using pairs[of c] c cl False by simp
      with up have "entry_key (?g ! ?gp) \<le> entry_key (?g ! c)" by (rule order_trans)
      then show ?thesis using g'gp ggp False cpp by simp
    qed
  qed
qed

lemma mset_update_swap:
  assumes "pos < length heap" and "pp < length heap"
  shows "mset (heap[pos := heap ! pp, pp := x]) = mset (heap[pos := x])"
proof (cases "pp = pos")
  case True
  then show ?thesis by simp
next
  case False
  then show ?thesis
    using assms mset_swap[of pp "heap[pos := x]" pos] by simp
qed

lemma siftdown_loop_heap:
  "pos < length heap \<Longrightarrow> heap_except (heap[pos := x]) pos \<Longrightarrow>
   is_heap (siftdown_loop heap 0 pos x) \<and> mset (siftdown_loop heap 0 pos x) = mset (heap[pos := x])"
proof (induction pos arbitrary: heap rule: less_induct)
  case (less pos)
  show ?case
  proof (cases "0 < pos")
    case False
    then have "siftdown_loop heap 0 pos x = heap[pos := x]"
      by (subst siftdown_loop.simps) simp
    moreover have "is_heap (heap[pos := x])"
      by (rule heap_except_done[OF less.prems(2)]) (use False in simp)
    ultimately show ?thesis by simp
  next
    case True
    let ?pp = "(pos - 1) div 2"
    have pp: "?pp < pos" using True by simp
    show ?thesis
    proof (cases "entry_lt x (heap ! ?pp)")
      case lt: True
      let ?h1 = "heap[pos := heap ! ?pp]"
      have eq: "siftdown_loop heap 0 pos x = siftdown_loop ?h1 0 ?pp x"
        using True lt by (simp add: siftdown_loop.simps[of heap 0 pos x] Let_def)
      have ex: "heap_except (?h1[?pp := x]) ?pp"
        using heap_except_swap[OF True less.prems(1) less.prems(2)] lt by (simp add: entry_lt_def)
      have l1: "?pp < length ?h1" using pp less.prems(1) by simp
      from less.IH[OF pp l1 ex] eq mset_update_swap[of pos heap ?pp x] less.prems(1) pp
      show ?thesis by simp
    next
      case ge: False
      have eq: "siftdown_loop heap 0 pos x = heap[pos := x]"
        using True ge by (simp add: siftdown_loop.simps[of heap 0 pos x] Let_def)
      have "is_heap (heap[pos := x])"
      proof (rule heap_except_done[OF less.prems(2)])
        show "0 < pos \<longrightarrow> entry_key ((heap[pos := x]) ! ?pp) \<le> entry_key ((heap[pos := x]) ! pos)"
          using ge pp less.prems(1) by (simp add: entry_lt_def not_less)
      qed
      with eq show ?thesis by simp
    qed
  qed
qed

lemma heappush_heap:
  assumes "is_heap heap"
  shows "is_heap (heappush heap item) \<and> mset (heappush heap item) = add_mset item (mset heap)"
proof -
  let ?h = "heap @ [item]"
  have ex: "heap_except (?h[length heap := item]) (length heap)"
    unfolding heap_except_def
  proof (intro conjI allI impI)
    fix i assume i: "0 < i \<and> i < length (?h[length heap := item]) \<and> i \<noteq> length heap"
    then have il: "i < length heap" by simp
    then have "(i - 1) div 2 < length heap" by simp
    with assms i il show "entry_key (?h[length heap := item] ! ((i - 1) div 2))
        \<le> entry_key (?h[length heap := item] ! i)"
      by (simp add: is_heap_def nth_append)
  next
    fix c assume c: "0 < length heap \<and> 0 < c \<and> c < length (?h[length heap := item]) \<and>
        (c - 1) div 2 = length heap"
    then have "c - 1 < length heap" by auto
    moreover have "(c - 1) div 2 \<le> c - 1" by (rule div_le_dividend)
    ultimately have False using c by linarith
    then show "entry_key (?h[length heap := item] ! ((length heap - 1) div 2))
        \<le> entry_key (?h[length heap := item] ! c)" ..
  qed
  have "heappush heap item = siftdown_loop ?h 0 (length heap) item"
    by (simp add: heappush_def siftdown_def)
  with siftdown_loop_heap[of "length heap" ?h item] ex show ?thesis by simp
qed

subsection \<open>\<^verbatim>\<open>_siftup\<close> and \<^verbatim>\<open>heappop\<close>\<close>

lemma child_cases: "0 < c \<Longrightarrow> (c - 1) div 2 = pos \<Longrightarrow> c = 2 * pos + 1 \<or> c = 2 * pos + 2" for c :: nat
  by presburger

lemma hole_leaf:
  assumes "hole_heap heap pos" and "\<not> 2 * pos + 1 < length heap"
  shows "heap_except (heap[pos := x]) pos"
  unfolding heap_except_def
proof (intro conjI allI impI)
  fix i assume i: "0 < i \<and> i < length (heap[pos := x]) \<and> i \<noteq> pos"
  then have il: "i < length heap" by simp
  have np: "(i - 1) div 2 \<noteq> pos"
    using child_cases[of i pos] i il assms(2) by auto
  have "entry_key (heap ! ((i - 1) div 2)) \<le> entry_key (heap ! i)"
    using assms(1) i il np unfolding hole_heap_def by blast
  moreover have "(heap[pos := x]) ! i = heap ! i" using i by simp
  moreover have "(heap[pos := x]) ! ((i - 1) div 2) = heap ! ((i - 1) div 2)" using np by simp
  ultimately show "entry_key ((heap[pos := x]) ! ((i - 1) div 2)) \<le> entry_key ((heap[pos := x]) ! i)"
    by simp
next
  fix c assume c: "0 < pos \<and> 0 < c \<and> c < length (heap[pos := x]) \<and> (c - 1) div 2 = pos"
  then have "c < length heap" by simp
  with child_cases[of c pos] c assms(2) have False by auto
  then show "entry_key ((heap[pos := x]) ! ((pos - 1) div 2)) \<le> entry_key ((heap[pos := x]) ! c)" ..
qed

lemma hole_step:
  assumes hole: "hole_heap heap pos" and left: "2 * pos + 1 < length heap"
    and c': "c' = (if 2 * pos + 2 < length heap \<and> \<not> entry_lt (heap ! (2 * pos + 1)) (heap ! (2 * pos + 2))
                   then 2 * pos + 2 else 2 * pos + 1)"
  shows "hole_heap (heap[pos := heap ! c']) c'"
proof -
  let ?h1 = "heap[pos := heap ! c']"
  have cl: "c' < length heap" using c' left by (simp split: if_splits)
  have cp: "(c' - 1) div 2 = pos" using c' by (simp split: if_splits)
  have cgt: "pos < c'" using c' by (simp split: if_splits)
  from hole have P: "\<forall>i. 0 < i \<and> i < length heap \<and> i \<noteq> pos \<and> (i - 1) div 2 \<noteq> pos \<longrightarrow>
      entry_key (heap ! ((i - 1) div 2)) \<le> entry_key (heap ! i)"
    unfolding hole_heap_def by (rule conjunct1)
  from hole have G: "\<forall>c. 0 < pos \<and> 0 < c \<and> c < length heap \<and> (c - 1) div 2 = pos \<longrightarrow>
      entry_key (heap ! ((pos - 1) div 2)) \<le> entry_key (heap ! c)"
    unfolding hole_heap_def by (rule conjunct2)
  have h1c: "?h1 ! pos = heap ! c'" using cl cgt by simp
  show ?thesis
    unfolding hole_heap_def
  proof (intro conjI allI impI)
    fix i assume i: "0 < i \<and> i < length ?h1 \<and> i \<noteq> c' \<and> (i - 1) div 2 \<noteq> c'"
    then have il: "i < length heap" by simp
    show "entry_key (?h1 ! ((i - 1) div 2)) \<le> entry_key (?h1 ! i)"
    proof (cases "i = pos")
      case True
      then have p0: "0 < pos" using i by simp
      have "entry_key (heap ! ((pos - 1) div 2)) \<le> entry_key (heap ! c')"
        using G p0 cl cp cgt by auto
      moreover have "?h1 ! ((pos - 1) div 2) = heap ! ((pos - 1) div 2)"
        using parent_less[OF p0] by simp
      ultimately show ?thesis using True h1c by simp
    next
      case ne: False
      have h1i: "?h1 ! i = heap ! i" using ne by simp
      show ?thesis
      proof (cases "(i - 1) div 2 = pos")
        case True
        from child_cases[of i pos] i True have ic: "i = 2 * pos + 1 \<or> i = 2 * pos + 2" by blast
        have "entry_key (heap ! c') \<le> entry_key (heap ! i)"
        proof (cases "2 * pos + 2 < length heap \<and> \<not> entry_lt (heap ! (2 * pos + 1)) (heap ! (2 * pos + 2))")
          case True
          then have "c' = 2 * pos + 2" using c' by simp
          with ic i have "i = 2 * pos + 1" by auto
          with True \<open>c' = 2 * pos + 2\<close> show ?thesis by (simp add: entry_lt_def not_less)
        next
          case False
          then have c1: "c' = 2 * pos + 1" using c' by simp
          with ic i have i2: "i = 2 * pos + 2" by auto
          with il False have "entry_lt (heap ! (2 * pos + 1)) (heap ! (2 * pos + 2))" by simp
          with c1 i2 show ?thesis by (simp add: entry_lt_def)
        qed
        then show ?thesis using True h1c h1i by simp
      next
        case False
        have "entry_key (heap ! ((i - 1) div 2)) \<le> entry_key (heap ! i)"
          using P i il ne False by blast
        moreover have "?h1 ! ((i - 1) div 2) = heap ! ((i - 1) div 2)" using False by simp
        ultimately show ?thesis using h1i by simp
      qed
    qed
  next
    fix c assume c: "0 < c' \<and> 0 < c \<and> c < length ?h1 \<and> (c - 1) div 2 = c'"
    then have cll: "c < length heap" by simp
    from c have c0: "0 < c" by blast
    have "(c - 1) div 2 < c" by (rule parent_less[OF c0])
    then have cc: "c' < c" using c by simp
    have "entry_key (heap ! ((c - 1) div 2)) \<le> entry_key (heap ! c)"
      using P c cll cc cgt by auto
    then have "entry_key (heap ! c') \<le> entry_key (heap ! c)" using c by simp
    moreover have "?h1 ! c = heap ! c" using cc cgt by simp
    ultimately show "entry_key (?h1 ! ((c' - 1) div 2)) \<le> entry_key (?h1 ! c)"
      using cp h1c by simp
  qed
qed

lemma siftup_loop_hole:
  "pos < length heap \<Longrightarrow> hole_heap heap pos \<Longrightarrow> siftup_loop heap (length heap) pos = (heap', pos') \<Longrightarrow>
   pos' < length heap \<and> length heap' = length heap \<and> heap_except (heap'[pos' := x]) pos' \<and>
   mset (heap'[pos' := x]) = mset (heap[pos := x])"
proof (induction "length heap - pos" arbitrary: heap pos rule: less_induct)
  case less
  show ?case
  proof (cases "2 * pos + 1 < length heap")
    case False
    then have "siftup_loop heap (length heap) pos = (heap, pos)"
      by (subst siftup_loop.simps) (simp add: Let_def)
    with less.prems(3) have e: "heap' = heap" "pos' = pos" by simp_all
    from hole_leaf[OF less.prems(2) False, of x] less.prems(1) e show ?thesis by simp
  next
    case True
    define c' where "c' = (if 2 * pos + 2 < length heap \<and> \<not> entry_lt (heap ! (2 * pos + 1)) (heap ! (2 * pos + 2))
                   then 2 * pos + 2 else 2 * pos + 1)"
    let ?h1 = "heap[pos := heap ! c']"
    have eq: "siftup_loop heap (length heap) pos = siftup_loop ?h1 (length heap) c'"
      using True by (subst siftup_loop.simps) (simp add: Let_def c'_def)
    have cl: "c' < length heap" using True by (simp add: c'_def)
    have cgt: "pos < c'" by (simp add: c'_def)
    have hole1: "hole_heap ?h1 c'" by (rule hole_step[OF less.prems(2) True c'_def])
    have m: "length ?h1 - c' < length heap - pos" using cl cgt by simp
    have run: "siftup_loop ?h1 (length ?h1) c' = (heap', pos')"
      using less.prems(3) eq by simp
    have cl1: "c' < length ?h1" using cl by simp
    from less.hyps[OF m cl1 hole1 run]
    have r: "pos' < length ?h1" "length heap' = length ?h1"
        "heap_except (heap'[pos' := x]) pos'" "mset (heap'[pos' := x]) = mset (?h1[c' := x])"
      by simp_all
    have "mset (?h1[c' := x]) = mset (heap[pos := x])"
      by (rule mset_update_swap[OF less.prems(1) cl])
    with r show ?thesis by simp
  qed
qed

lemma heap_root_min: "is_heap h \<Longrightarrow> i < length h \<Longrightarrow> entry_key (h ! 0) \<le> entry_key (h ! i)"
proof (induction i rule: less_induct)
  case (less i)
  show ?case
  proof (cases "i = 0")
    case True
    then show ?thesis by simp
  next
    case False
    then have p: "(i - 1) div 2 < i" by simp
    have "entry_key (h ! ((i - 1) div 2)) \<le> entry_key (h ! i)"
      using less.prems False unfolding is_heap_def by blast
    moreover have "entry_key (h ! 0) \<le> entry_key (h ! ((i - 1) div 2))"
      using less.IH[OF p less.prems(1)] p less.prems(2) by simp
    ultimately show ?thesis by (rule order_trans[rotated])
  qed
qed

lemma is_heap_butlast: "is_heap h \<Longrightarrow> is_heap (butlast h)"
  unfolding is_heap_def
proof (intro allI impI)
  fix i assume h: "\<forall>i. 0 < i \<and> i < length h \<longrightarrow> entry_key (h ! ((i - 1) div 2)) \<le> entry_key (h ! i)"
    and i: "0 < i \<and> i < length (butlast h)"
  then have il: "i < length h - 1" by simp
  then have "(i - 1) div 2 < length h - 1" by simp
  with il h i show "entry_key (butlast h ! ((i - 1) div 2)) \<le> entry_key (butlast h ! i)"
    by (simp add: nth_butlast)
qed

lemma heappop_heap:
  assumes "is_heap heap" and "heap \<noteq> []"
  shows "\<exists>h'. heappop heap = Some (heap ! 0, h') \<and> is_heap h' \<and> mset heap = add_mset (heap ! 0) (mset h')"
proof (cases "butlast heap = []")
  case True
  then have one: "length heap = 1" using assms(2) by (cases heap) (auto split: if_splits)
  then have "last heap = heap ! 0" using assms(2) by (simp add: last_conv_nth)
  moreover have "mset heap = {#heap ! 0#}" using one by (cases heap) auto
  ultimately show ?thesis using True assms(2) by (simp add: heappop_def Let_def is_heap_def)
next
  case False
  let ?h0 = "butlast heap"
  let ?last = "last heap"
  let ?h2 = "?h0[0 := ?last]"
  have n0: "0 < length ?h0" using False by (rule length_greater_0_conv[THEN iffD2])
  have h00: "?h0 ! 0 = heap ! 0" using n0 by (simp add: nth_butlast)
  have hole: "hole_heap ?h2 0"
    unfolding hole_heap_def
  proof (intro conjI allI impI)
    fix i assume i: "0 < i \<and> i < length ?h2 \<and> i \<noteq> 0 \<and> (i - 1) div 2 \<noteq> 0"
    have "entry_key (?h0 ! ((i - 1) div 2)) \<le> entry_key (?h0 ! i)"
      using is_heap_butlast[OF assms(1)] i unfolding is_heap_def by simp
    then show "entry_key (?h2 ! ((i - 1) div 2)) \<le> entry_key (?h2 ! i)" using i by simp
  next
    fix c assume "(0::nat) < 0 \<and> 0 < c \<and> c < length ?h2 \<and> (c - 1) div 2 = 0"
    then show "entry_key (?h2 ! ((0 - 1) div 2)) \<le> entry_key (?h2 ! c)" by simp
  qed
  obtain h1 p1 where su: "siftup_loop ?h2 (length ?h2) 0 = (h1, p1)"
    by (cases "siftup_loop ?h2 (length ?h2) 0") auto
  have l2: "0 < length ?h2" using n0 by simp
  from siftup_loop_hole[OF l2 hole su, of ?last]
  have r: "p1 < length ?h2" "length h1 = length ?h2" "heap_except (h1[p1 := ?last]) p1"
      "mset (h1[p1 := ?last]) = mset ?h2"
    by simp_all
  let ?H = "h1[p1 := ?last]"
  have pl: "p1 < length ?H" using r(1,2) by simp
  have Hp: "?H ! p1 = ?last" using r(1,2) by simp
  have ex: "heap_except (?H[p1 := ?last]) p1" using r(3) by simp
  from siftdown_loop_heap[OF pl ex]
  have sd: "is_heap (siftdown_loop ?H 0 p1 ?last)" "mset (siftdown_loop ?H 0 p1 ?last) = mset ?h2"
    using r(4) by simp_all
  have pop: "heappop heap = Some (heap ! 0, siftdown_loop ?H 0 p1 ?last)"
    using assms(2) False su Hp h00 n0
    by (simp add: heappop_def Let_def siftup_def siftdown_def)
  have "mset heap = add_mset ?last (mset ?h0)"
    using assms(2) by (metis append_butlast_last_id mset.simps(2) mset_append add_mset_add_single union_mset_add_mset_right mset.simps(1))
  moreover have "mset ?h2 = add_mset ?last (mset ?h0 - {#?h0 ! 0#})"
    using n0 by (simp add: mset_update)
  moreover have "?h0 ! 0 \<in># mset ?h0" using n0 by simp
  ultimately have "mset heap = add_mset (heap ! 0) (mset ?h2)"
    using h00 by simp
  with pop sd show ?thesis by simp
qed

subsection \<open>Pushes followed by pops\<close>

lemma enqueue_all_heap:
  "is_heap (tq_heap q) \<Longrightarrow>
   is_heap (tq_heap (enqueue_all q ps)) \<and>
   mset (tq_heap (enqueue_all q ps)) = mset (tq_heap q) + mset (entries_of (tq_counter q) ps)"
proof (induction ps arbitrary: q)
  case Nil
  then show ?case by simp
next
  case (Cons p ps)
  obtain now task where p: "p = (now, task)" by (cases p)
  let ?e = "(get_priority (task\<lparr>q_enqueued_time := Some now\<rparr>), tq_counter q, task\<lparr>q_enqueued_time := Some now\<rparr>)"
  let ?q1 = "enqueue now q task"
  have h1: "tq_heap ?q1 = heappush (tq_heap q) ?e" and c1: "tq_counter ?q1 = Suc (tq_counter q)"
    by (simp_all add: enqueue_def Let_def)
  from heappush_heap[OF Cons.prems, of ?e] h1
  have k: "is_heap (tq_heap ?q1)" "mset (tq_heap ?q1) = add_mset ?e (mset (tq_heap q))"
    by simp_all
  from Cons.IH[OF k(1)] k(2) c1 p show ?case by simp
qed

lemma entries_of_length: "length (entries_of c ps) = length ps"
  by (induction c ps rule: entries_of.induct) simp_all

lemma entries_of_tasks: "map (\<lambda>e. snd (snd e)) (entries_of c ps) = stamped ps"
  by (induction c ps rule: entries_of.induct) (simp_all add: stamped_def)

lemma entries_of_priority: "e \<in> set (entries_of c ps) \<Longrightarrow> fst e = get_priority (snd (snd e))"
  by (induction c ps rule: entries_of.induct) auto

lemma entries_of_counter: "e \<in> set (entries_of c ps) \<Longrightarrow> c \<le> fst (snd e)"
  by (induction c ps rule: entries_of.induct) (auto simp: Suc_le_eq less_imp_le)

lemma entries_of_counters: "map (\<lambda>e. fst (snd e)) (entries_of c ps) = [c ..< c + length ps]"
  by (induction c ps rule: entries_of.induct) (simp_all add: upt_rec)

lemma distinct_map_outer: "distinct (map (\<lambda>x. g (f x)) xs) \<Longrightarrow> distinct (map f xs)"
  by (induction xs) auto

lemma entries_of_distinct_keys: "distinct (map entry_key (entries_of c ps))"
proof -
  have "distinct (map (\<lambda>e. snd (entry_key e)) (entries_of c ps))"
    using entries_of_counters[of c ps] by (simp add: entry_key_def)
  then show ?thesis by (rule distinct_map_outer)
qed

lemma lex_le_first: "a < c \<Longrightarrow> (a, b) \<le> (c, d)" for a :: "'a::order" and b :: "'b::order"
  by (simp add: less_eq_prod_def)

lemma lex_le_both: "a \<le> c \<Longrightarrow> b \<le> d \<Longrightarrow> (a, b) \<le> (c, d)" for a :: "'a::order" and b :: "'b::order"
  by (simp add: less_eq_prod_def)

lemma insort_keeps_lex_order:
  "sorted (map entry_key ys) \<Longrightarrow> \<forall>y \<in> set ys. fst (snd x) < fst (snd y) \<Longrightarrow>
   sorted (map entry_key (insort_key fst x ys))"
proof (induction ys)
  case Nil
  then show ?case by simp
next
  case (Cons y ys)
  show ?case
  proof (cases "fst x \<le> fst y")
    case True
    have "fst (snd x) \<le> fst (snd y)" using Cons.prems(2) by (simp add: less_imp_le)
    with True have "entry_key x \<le> entry_key y"
      unfolding entry_key_def by (rule lex_le_both)
    moreover have "\<forall>z \<in> set ys. entry_key y \<le> entry_key z" using Cons.prems(1) by simp
    ultimately have "\<forall>z \<in> set (y # ys). entry_key x \<le> entry_key z" by auto
    with True Cons.prems(1) show ?thesis by simp
  next
    case False
    then have "fst y < fst x" by simp
    then have "entry_key y \<le> entry_key x"
      unfolding entry_key_def by (rule lex_le_first)
    moreover have "\<forall>z \<in> set ys. entry_key y \<le> entry_key z" using Cons.prems(1) by simp
    ultimately have "\<forall>z \<in> set (insort_key fst x ys). entry_key y \<le> entry_key z"
      by (auto simp: set_insort_key)
    moreover have "sorted (map entry_key (insort_key fst x ys))"
      using Cons.IH Cons.prems by simp
    ultimately show ?thesis using False by simp
  qed
qed

lemma sort_entries_lex: "sorted (map entry_key (sort_key fst (entries_of c ps)))"
proof (induction c ps rule: entries_of.induct)
  case (1 c)
  show ?case by simp
next
  case (2 c now task pushes)
  have "\<forall>y \<in> set (sort_key fst (entries_of (Suc c) pushes)). c < fst (snd y)"
    using entries_of_counter[of _ "Suc c" pushes] by (auto simp: Suc_le_eq)
  with insort_keeps_lex_order[OF 2] show ?case by simp
qed

lemma pop_n_sorted:
  "is_heap h \<Longrightarrow> length h = n \<Longrightarrow> mset (pop_n n h) = mset h \<and> sorted (map entry_key (pop_n n h))"
proof (induction n arbitrary: h)
  case 0
  then show ?case by simp
next
  case (Suc n)
  then have ne: "h \<noteq> []" by auto
  from heappop_heap[OF Suc.prems(1) ne] obtain h' where
    p: "heappop h = Some (h ! 0, h')" "is_heap h'" "mset h = add_mset (h ! 0) (mset h')"
    by blast
  have "size (mset h) = Suc (size (mset h'))" using p(3) by simp
  then have l: "length h' = n" using Suc.prems(2) by simp
  from Suc.IH[OF p(2) l] have ih: "mset (pop_n n h') = mset h'" "sorted (map entry_key (pop_n n h'))"
    by simp_all
  have "\<forall>e \<in> set (pop_n n h'). entry_key (h ! 0) \<le> entry_key e"
  proof
    fix e assume "e \<in> set (pop_n n h')"
    then have "e \<in># mset h'" using ih(1) by (metis set_mset_mset)
    then have "e \<in># mset h" using p(3) by simp
    then have "e \<in> set h" by simp
    then obtain j where "j < length h" "h ! j = e" by (auto simp: in_set_conv_nth)
    with heap_root_min[OF Suc.prems(1)] show "entry_key (h ! 0) \<le> entry_key e" by blast
  qed
  with ih p show ?case by simp
qed

lemma dequeue_n_pop:
  "is_heap (tq_heap q) \<Longrightarrow> length (tq_heap q) = n \<Longrightarrow>
   dequeue_n n q = map (\<lambda>e. Some (snd (snd e))) (pop_n n (tq_heap q))"
proof (induction n arbitrary: q)
  case 0
  show ?case by simp
next
  case (Suc n)
  then have ne: "tq_heap q \<noteq> []" by auto
  from heappop_heap[OF Suc.prems(1) ne] obtain h' where
    p: "heappop (tq_heap q) = Some (tq_heap q ! 0, h')" "is_heap h'"
      "mset (tq_heap q) = add_mset (tq_heap q ! 0) (mset h')"
    by blast
  have "size (mset (tq_heap q)) = Suc (size (mset h'))" using p(3) by simp
  then have l: "length h' = n" using Suc.prems(2) by simp
  have d: "dequeue q = (Some (snd (snd (tq_heap q ! 0))), q\<lparr>tq_heap := h'\<rparr>)"
    using ne p(1) by (simp add: dequeue_def)
  from Suc.IH[of "q\<lparr>tq_heap := h'\<rparr>"] p(2) l
  have "dequeue_n n (q\<lparr>tq_heap := h'\<rparr>) = map (\<lambda>e. Some (snd (snd e))) (pop_n n h')" by simp
  with d p(1) show ?case by simp
qed

lemma insort_key_cong_set:
  "f x = g x \<Longrightarrow> (\<And>y. y \<in> set ys \<Longrightarrow> f y = g y) \<Longrightarrow> insort_key f x ys = insort_key g x ys"
  by (induction ys) simp_all

lemma sort_key_cong_set:
  "(\<And>x. x \<in> set xs \<Longrightarrow> f x = g x) \<Longrightarrow> sort_key f xs = sort_key g xs"
proof (induction xs)
  case Nil
  show ?case by simp
next
  case (Cons x xs)
  then have ih: "sort_key f xs = sort_key g xs" by simp
  have "insort_key f x (sort_key g xs) = insort_key g x (sort_key g xs)"
    using Cons.prems by (intro insort_key_cong_set) simp_all
  with ih show ?case by simp
qed

text \<open>
  Claim C4. For every sequence of pushes into an empty queue, as many pops return
  the pushed tasks sorted by \<open>(deadline, est_runtime)\<close> with the stable sort: the
  popped keys are non-decreasing, and the tasks with any one key come out in the
  order in which they were pushed.
\<close>

theorem dequeue_in_key_then_insertion_order:
  "dequeue_n (length ps) (enqueue_all TaskQueue ps)
     = map Some (sort_key get_priority (stamped ps)) \<and>
   sorted (map get_priority (sort_key get_priority (stamped ps))) \<and>
   (\<forall>k. filter (\<lambda>t. get_priority t = k) (sort_key get_priority (stamped ps))
       = filter (\<lambda>t. get_priority t = k) (stamped ps))"
proof -
  let ?q = "enqueue_all TaskQueue ps"
  let ?xs = "entries_of 0 ps"
  have h0: "is_heap (tq_heap TaskQueue)" by (simp add: TaskQueue_def is_heap_def)
  from enqueue_all_heap[OF h0, of ps]
  have q: "is_heap (tq_heap ?q)" "mset (tq_heap ?q) = mset ?xs"
    by (simp_all add: TaskQueue_def)
  have "size (mset (tq_heap ?q)) = size (mset ?xs)" using q(2) by simp
  then have len: "length (tq_heap ?q) = length ps" by (simp add: entries_of_length)
  let ?es = "pop_n (length ps) (tq_heap ?q)"
  from pop_n_sorted[OF q(1) len] q(2)
  have es: "mset ?es = mset ?xs" "sorted (map entry_key ?es)" by simp_all
  let ?ys = "sort_key fst ?xs"
  have dx: "distinct (map entry_key ?xs)" by (rule entries_of_distinct_keys)
  then have inj: "inj_on entry_key (set ?xs)" by (simp add: distinct_map)
  have sets: "set ?es = set ?xs" using es(1) by (metis set_mset_mset)
  have dy: "distinct (map entry_key ?ys)"
    using dx by (simp add: distinct_map)
  have "mset (map entry_key ?es) = mset (map entry_key ?xs)" using es(1) by simp
  then have de: "distinct (map entry_key ?es)" using dx by (metis mset_eq_imp_distinct_iff)
  have eq: "?es = ?ys"
  proof (rule map_sorted_distinct_set_unique[of entry_key])
    show "inj_on entry_key (set ?es \<union> set ?ys)" using inj sets by simp
    show "sorted (map entry_key ?es)" by (rule es(2))
    show "distinct (map entry_key ?es)" by (rule de)
    show "sorted (map entry_key ?ys)" by (rule sort_entries_lex)
    show "distinct (map entry_key ?ys)" by (rule dy)
    show "set ?es = set ?ys" using sets by simp
  qed
  have "?ys = sort_key (\<lambda>e. get_priority (snd (snd e))) ?xs"
    by (rule sort_key_cong_set) (rule entries_of_priority)
  then have "map (\<lambda>e. snd (snd e)) ?ys = sort_key get_priority (stamped ps)"
    using sort_key_map[of get_priority "\<lambda>e. snd (snd e)" ?xs] by (simp add: entries_of_tasks)
  then have "map (Some \<circ> (\<lambda>e. snd (snd e))) ?ys = map Some (sort_key get_priority (stamped ps))"
    by (simp flip: map_map)
  with dequeue_n_pop[OF q(1) len] eq
  have "dequeue_n (length ps) ?q = map Some (sort_key get_priority (stamped ps))"
    by (simp add: comp_def)
  then show ?thesis by (simp add: sort_key_stable)
qed

end
